theory Spec2Isabelle
  imports Main
begin

section \<open>Script-level helpers used by the contract solvers\<close>

text \<open>
  The solvers are TypeScript closures of type \<open>(state, answer: string) => boolean\<close>.
  Strings are modelled as \<^typ>\<open>string\<close> (one \<^typ>\<open>char\<close> per code unit), script numbers
  that only ever hold integers as \<^typ>\<open>int\<close> (exact as long as magnitudes stay below
  \<open>2^53\<close>), \<open>NaN\<close> as \<open>None\<close> of an \<^typ>\<open>int option\<close>, and a thrown exception as
  the \<open>Inl\<close> branch of a sum.
\<close>

datatype error = TypeError | SyntaxError

text \<open>\<open>charCodeAt\<close> of a one-character string.\<close>

definition charCode :: "char \<Rightarrow> nat" where
  "charCode c = of_char c"

definition is_digit :: "char \<Rightarrow> bool" where
  "is_digit c \<longleftrightarrow> 48 \<le> charCode c \<and> charCode c \<le> 57"

text \<open>The white space and line terminators that \<open>parseInt\<close>, \<open>BigInt\<close> and the regular
  expression class \<open>\s\<close> skip, as far as they exist among 8-bit characters.\<close>

definition js_whitespace :: "char \<Rightarrow> bool" where
  "js_whitespace c \<longleftrightarrow> charCode c \<in> {9, 10, 11, 12, 13, 32, 160}"

text \<open>The value of a character as a digit in radixes up to 36.\<close>

definition digit_of :: "char \<Rightarrow> nat option" where
  "digit_of c =
     (let n = charCode c in
      if 48 \<le> n \<and> n \<le> 57 then Some (n - 48)
      else if 97 \<le> n \<and> n \<le> 122 then Some (n - 87)
      else if 65 \<le> n \<and> n \<le> 90 then Some (n - 55)
      else None)"

definition radix_digit :: "nat \<Rightarrow> char \<Rightarrow> bool" where
  "radix_digit R c = (case digit_of c of None \<Rightarrow> False | Some d \<Rightarrow> d < R)"

definition digits_value :: "nat \<Rightarrow> string \<Rightarrow> nat" where
  "digits_value R ds = foldl (\<lambda>acc c. acc * R + the (digit_of c)) 0 ds"

text \<open>
  \<open>parseInt(s, radix)\<close> for \<open>radix\<close> 10 (\<open>Some 10\<close>) and for the call without a radix
  (\<open>None\<close>): leading white space is skipped, one sign is read, without a radix a prefix
  \<open>0x\<close>/\<open>0X\<close> switches to base 16, and the longest run of digits is converted. No digit
  at all gives \<open>NaN\<close>.
\<close>

definition parseInt_radix :: "nat option \<Rightarrow> string \<Rightarrow> int option" where
  "parseInt_radix radix s =
     (let s1 = dropWhile js_whitespace s;
          neg = (s1 \<noteq> [] \<and> hd s1 = CHR ''-'');
          s2 = (if s1 \<noteq> [] \<and> (hd s1 = CHR ''-'' \<or> hd s1 = CHR ''+'') then tl s1 else s1);
          hex = ((radix = None \<or> radix = Some 16) \<and> (take 2 s2 = ''0x'' \<or> take 2 s2 = ''0X''));
          R = (if hex then 16 else (case radix of None \<Rightarrow> 10 | Some r \<Rightarrow> r));
          s3 = (if hex then drop 2 s2 else s2);
          ds = takeWhile (radix_digit R) s3
      in if ds = [] then None
         else Some ((if neg then - 1 else 1) * int (digits_value R ds)))"

abbreviation parseInt10 :: "string \<Rightarrow> int option" where
  "parseInt10 \<equiv> parseInt_radix (Some 10)"

abbreviation parseInt :: "string \<Rightarrow> int option" where
  "parseInt \<equiv> parseInt_radix None"

text \<open>\<open>Number.prototype.toString\<close> and \<open>BigInt.prototype.toString\<close> on an integer
  (for a number: of magnitude below \<open>10^21\<close>, where the decimal expansion is printed).\<close>

definition digit_char :: "nat \<Rightarrow> char" where
  "digit_char d = char_of (48 + d)"

fun nat_digits :: "nat \<Rightarrow> string" where
  "nat_digits n = (if n < 10 then [digit_char n] else nat_digits (n div 10) @ [digit_char (n mod 10)])"

declare nat_digits.simps [simp del]

definition toString :: "int \<Rightarrow> string" where
  "toString i = (if i < 0 then CHR ''-'' # nat_digits (nat (- i)) else nat_digits (nat i))"

text \<open>
  \<open>BigInt(s)\<close> on a string: white space is trimmed at both ends, the empty string is
  \<open>0n\<close>, a prefix \<open>0x\<close>, \<open>0o\<close> or \<open>0b\<close> selects the base (no sign allowed then), otherwise
  an optional sign and decimal digits; anything else throws a \<open>SyntaxError\<close>.
\<close>

definition trim :: "string \<Rightarrow> string" where
  "trim s = rev (dropWhile js_whitespace (rev (dropWhile js_whitespace s)))"

definition all_digits :: "nat \<Rightarrow> string \<Rightarrow> error + int" where
  "all_digits R ds =
     (if ds \<noteq> [] \<and> list_all (radix_digit R) ds then Inr (int (digits_value R ds))
      else Inl SyntaxError)"

definition BigInt :: "string \<Rightarrow> error + int" where
  "BigInt s =
     (let t = trim s in
      if t = [] then Inr 0
      else if take 2 t = ''0x'' \<or> take 2 t = ''0X'' then all_digits 16 (drop 2 t)
      else if take 2 t = ''0o'' \<or> take 2 t = ''0O'' then all_digits 8 (drop 2 t)
      else if take 2 t = ''0b'' \<or> take 2 t = ''0B'' then all_digits 2 (drop 2 t)
      else if hd t = CHR ''-'' then
        (case all_digits 10 (tl t) of Inl e \<Rightarrow> Inl e | Inr v \<Rightarrow> Inr (- v))
      else if hd t = CHR ''+'' then all_digits 10 (tl t)
      else all_digits 10 t)"

text \<open>\<open>removeBracketsFromArrayString\<close>: at most one leading \<open>[\<close> and one trailing \<open>]\<close>.\<close>

definition removeBracketsFromArrayString :: "string \<Rightarrow> string" where
  "removeBracketsFromArrayString str =
     (let strCpy = (if str \<noteq> [] \<and> hd str = CHR ''['' then tl str else str)
      in if strCpy \<noteq> [] \<and> last strCpy = CHR '']'' then butlast strCpy else strCpy)"

text \<open>\<open>removeQuotesFromString\<close>: at most one leading and one trailing quote of either kind.\<close>

definition is_quote :: "char \<Rightarrow> bool" where
  "is_quote c \<longleftrightarrow> c = CHR 0x22 \<or> c = CHR 0x27"

definition removeQuotesFromString :: "string \<Rightarrow> string" where
  "removeQuotesFromString str =
     (let strCpy = (if str \<noteq> [] \<and> is_quote (hd str) then tl str else str)
      in if strCpy \<noteq> [] \<and> is_quote (last strCpy) then butlast strCpy else strCpy)"

text \<open>\<open>s.replace(/\s/g, "")\<close>.\<close>

definition strip_ws :: "string \<Rightarrow> string" where
  "strip_ws s = filter (\<lambda>c. \<not> js_whitespace c) s"

text \<open>\<open>s.split(",")\<close>: the pieces between commas; the empty string gives one empty piece.\<close>

fun split_comma :: "string \<Rightarrow> string list" where
  "split_comma [] = [[]]"
| "split_comma (c # cs) =
     (if c = CHR '','' then [] # split_comma cs
      else (case split_comma cs of p # ps \<Rightarrow> (c # p) # ps | [] \<Rightarrow> [[c]]))"

subsection \<open>Printing and parsing integers are inverse\<close>

lemma charCode_digit_char: "d < 10 \<Longrightarrow> charCode (digit_char d) = 48 + d"
  by (simp add: charCode_def digit_char_def)

lemma digit_of_digit_char: "d < 10 \<Longrightarrow> digit_of (digit_char d) = Some d"
  by (simp add: digit_of_def charCode_digit_char)

lemma radix_digit_10: "radix_digit 10 c = is_digit c"
  by (auto simp: radix_digit_def digit_of_def is_digit_def Let_def)

lemma is_digit_digit_char: "d < 10 \<Longrightarrow> is_digit (digit_char d)"
  by (simp add: is_digit_def charCode_digit_char)

lemma nat_digits_nonempty: "nat_digits n \<noteq> []"
  by (subst nat_digits.simps) simp

lemma nat_digits_all_digits: "list_all is_digit (nat_digits n)"
  by (induction n rule: nat_digits.induct) (subst nat_digits.simps, simp add: is_digit_digit_char)

lemma digits_value_snoc: "digits_value R (ds @ [c]) = digits_value R ds * R + the (digit_of c)"
  by (simp add: digits_value_def)

lemma digits_value_nat_digits: "digits_value 10 (nat_digits n) = n"
proof (induction n rule: nat_digits.induct)
  case (1 n)
  show ?case
  proof (cases "n < 10")
    case True
    then show ?thesis
      by (subst nat_digits.simps) (simp add: digits_value_def digit_of_digit_char)
  next
    case False
    with 1 show ?thesis
      by (subst nat_digits.simps) (simp add: digits_value_snoc digit_of_digit_char)
  qed
qed

lemma hd_nat_digits_digit: "is_digit (hd (nat_digits n))"
  using nat_digits_all_digits [of n] nat_digits_nonempty [of n]
  by (cases "nat_digits n") simp_all

lemma is_digit_not_ws: "is_digit c \<Longrightarrow> \<not> js_whitespace c"
  by (auto simp: is_digit_def js_whitespace_def)

lemma is_digit_not_sign: "is_digit c \<Longrightarrow> c \<noteq> CHR ''-'' \<and> c \<noteq> CHR ''+''"
  by (auto simp: is_digit_def charCode_def)

lemma takeWhile_digits_suffix:
  "list_all is_digit ds \<Longrightarrow> suffix = [] \<or> \<not> is_digit (hd suffix) \<Longrightarrow>
   takeWhile is_digit (ds @ suffix) = ds"
  by (induction ds) (auto simp: takeWhile_eq_Nil_iff  neq_Nil_conv)

lemma parseInt10_nat:
  assumes "suffix = [] \<or> \<not> is_digit (hd suffix)"
  shows "parseInt10 (nat_digits n @ suffix) = Some (int n)"
proof -
  obtain c cs where cs: "nat_digits n = c # cs"
    using nat_digits_nonempty [of n] by (cases "nat_digits n") auto
  have c: "is_digit c" using hd_nat_digits_digit [of n] cs by simp
  have tw: "takeWhile (radix_digit 10) (nat_digits n @ suffix) = nat_digits n"
    using takeWhile_digits_suffix [OF nat_digits_all_digits assms, of n]
    by (simp add: radix_digit_10 [abs_def])
  show ?thesis
    using c is_digit_not_ws [OF c] is_digit_not_sign [OF c] tw cs
    by (simp add: parseInt_radix_def Let_def digits_value_nat_digits [of n, unfolded cs])
qed

lemma parseInt10_neg:
  assumes "suffix = [] \<or> \<not> is_digit (hd suffix)"
  shows "parseInt10 (CHR ''-'' # nat_digits n @ suffix) = Some (- int n)"
proof -
  have tw: "takeWhile (radix_digit 10) (nat_digits n @ suffix) = nat_digits n"
    using takeWhile_digits_suffix [OF nat_digits_all_digits assms, of n]
    by (simp add: radix_digit_10 [abs_def])
  have ws: "\<not> js_whitespace CHR ''-''"
    by (simp add: js_whitespace_def charCode_def)
  show ?thesis
    using tw ws nat_digits_nonempty [of n]
    by (simp add: parseInt_radix_def Let_def digits_value_nat_digits)
qed

lemma parseInt10_toString:
  assumes "suffix = [] \<or> \<not> is_digit (hd suffix)"
  shows "parseInt10 (toString v @ suffix) = Some v"
  using parseInt10_nat [OF assms, of "nat v"] parseInt10_neg [OF assms, of "nat (- v)"]
  by (simp add: toString_def)

lemma trim_digits: "list_all is_digit ds \<Longrightarrow> ds \<noteq> [] \<Longrightarrow> trim ds = ds"
proof -
  assume a: "list_all is_digit ds" and ne: "ds \<noteq> []"
  have h: "\<not> js_whitespace (hd ds)" using a ne is_digit_not_ws by (cases ds) auto
  have l: "\<not> js_whitespace (last ds)" using a ne is_digit_not_ws
    by (metis last_in_set list_all_iff)
  have 1: "dropWhile js_whitespace ds = ds" using h ne by (cases ds) auto
  have 2: "dropWhile js_whitespace (rev ds) = rev ds" using l ne
    by (cases "rev ds") (auto simp: last_rev hd_rev)
  show ?thesis by (simp add: trim_def 1 2)
qed

lemma all_digits_nat_digits: "all_digits 10 (nat_digits n) = Inr (int n)"
  using nat_digits_all_digits [of n] nat_digits_nonempty [of n]
  by (simp add: all_digits_def radix_digit_10 [abs_def] digits_value_nat_digits)

lemma take2_digits: "list_all is_digit t \<Longrightarrow> \<not> is_digit x \<Longrightarrow> take 2 t \<noteq> [y, x]"
proof
  assume a: "list_all is_digit t" and x: "\<not> is_digit x" and e: "take 2 t = [y, x]"
  have "x \<in> set (take 2 t)" by (simp add: e)
  then have "x \<in> set t" by (rule in_set_takeD)
  with a x show False by (simp add: list_all_iff)
qed

lemma BigInt_digits:
  assumes all: "list_all is_digit t" and ne: "t \<noteq> []"
  shows "BigInt t = all_digits 10 t"
proof -
  have nl: "\<not> is_digit CHR ''x''" "\<not> is_digit CHR ''X''" "\<not> is_digit CHR ''o''" "\<not> is_digit CHR ''O''"
    "\<not> is_digit CHR ''b''" "\<not> is_digit CHR ''B''"
    by (simp_all add: is_digit_def charCode_def)
  have hd: "is_digit (hd t)" using all ne by (cases t) auto
  show ?thesis
    using trim_digits [OF all ne] ne is_digit_not_sign [OF hd] nl [THEN take2_digits [OF all]]
    by (simp add: BigInt_def Let_def)
qed

lemma BigInt_nat_digits: "BigInt (nat_digits n) = Inr (int n)"
  by (simp add: BigInt_digits [OF nat_digits_all_digits nat_digits_nonempty] all_digits_nat_digits)

lemma trim_neg_digits: "list_all is_digit ds \<Longrightarrow> ds \<noteq> [] \<Longrightarrow> trim (CHR ''-'' # ds) = CHR ''-'' # ds"
proof -
  assume a: "list_all is_digit ds" and ne: "ds \<noteq> []"
  have l: "\<not> js_whitespace (last ds)" using a ne is_digit_not_ws
    by (metis last_in_set list_all_iff)
  have ws: "\<not> js_whitespace CHR ''-''"
    by (simp add: js_whitespace_def charCode_def)
  have 2: "dropWhile js_whitespace (rev ds) = rev ds" using l ne
    by (cases "rev ds") (auto simp: last_rev hd_rev)
  have 3: "dropWhile js_whitespace (rev ds @ ''-'') = rev ds @ ''-''" using l ne
    by (cases "rev ds") (auto simp: last_rev hd_rev)
  show ?thesis by (simp add: trim_def ws 3)
qed

lemma BigInt_neg_digits: "BigInt (CHR ''-'' # nat_digits n) = Inr (- int n)"
proof -
  have nd: "\<not> is_digit CHR ''-''" by (simp add: is_digit_def charCode_def)
  have "take 2 (CHR ''-'' # nat_digits n) \<noteq> [CHR ''0'', x]" for x
    by simp
  then show ?thesis
    using trim_neg_digits [OF nat_digits_all_digits nat_digits_nonempty, of n]
      all_digits_nat_digits [of n]
    by (simp add: BigInt_def Let_def)
qed

lemma BigInt_toString: "BigInt (toString v) = Inr v"
  using BigInt_nat_digits [of "nat v"] BigInt_neg_digits [of "nat (- v)"]
  by (simp add: toString_def)

section \<open>Find Largest Prime Factor and Algorithmic Stock Trader I\<close>

text \<open>
  \<^verbatim>\<open>
  solver: (data: number, ans: string): boolean => {
    let fac = 2;
    let n: number = data;
    while (n > (fac - 1) * (fac - 1)) {
      while (n % fac === 0) {
        n = Math.round(n / fac);
      }
      ++fac;
    }
    return (n === 1 ? fac - 1 : n) === parseInt(ans, 10);
  }
  \<close>
  Both loops are written as they stand, for any \<open>n\<close> and \<open>fac\<close>; seen as functions of
  arbitrary arguments they need not stop (\<open>fac = 1\<close> divides for ever), so they return an
  option and \<open>None\<close> stands for a run that never returns. The remainder of the script is
  zero exactly when \<open>fac\<close> is not zero and divides \<open>n\<close>, and the rounded quotient is then
  the exact one.
\<close>

partial_function (option) divide_out :: "int \<Rightarrow> int \<Rightarrow> int option" where
  "divide_out n fac =
     (if fac \<noteq> 0 \<and> n mod fac = 0 then divide_out (n div fac) fac else Some n)"

partial_function (option) lpf_loop :: "int \<Rightarrow> int \<Rightarrow> (int \<times> int) option" where
  "lpf_loop n fac =
     (if n > (fac - 1) * (fac - 1)
      then Option.bind (divide_out n fac) (\<lambda>n'. lpf_loop n' (fac + 1))
      else Some (n, fac))"

declare divide_out.simps [code]
declare lpf_loop.simps [code]

definition lpf_value :: "int \<Rightarrow> int option" where
  "lpf_value data = map_option (\<lambda>(n, fac). if n = 1 then fac - 1 else n) (lpf_loop data 2)"

definition lpf_solver :: "int \<Rightarrow> string \<Rightarrow> bool option" where
  "lpf_solver data ans = map_option (\<lambda>v. Some v = parseInt10 ans) (lpf_value data)"

text \<open>
  \<^verbatim>\<open>
  solver: (data: number[], ans: string): boolean => {
    let maxCur = 0;
    let maxSoFar = 0;
    for (let i = 1; i < data.length; ++i) {
      maxCur = Math.max(0, (maxCur += data[i] - data[i - 1]));
      maxSoFar = Math.max(maxCur, maxSoFar);
    }
    return maxSoFar.toString() === ans;
  }
  \<close>
\<close>

function stock1_loop :: "int list \<Rightarrow> nat \<Rightarrow> int \<times> int \<Rightarrow> int \<times> int" where
  "stock1_loop data i (maxCur, maxSoFar) =
     (if i < length data then
        let maxCur' = max 0 (maxCur + (data ! i - data ! (i - 1)));
            maxSoFar' = max maxCur' maxSoFar
        in stock1_loop data (i + 1) (maxCur', maxSoFar')
      else (maxCur, maxSoFar))"
  by pat_completeness auto
termination
  by (relation "measure (\<lambda>(data, i, _). length data - i)") auto

definition stock1_value :: "int list \<Rightarrow> int" where
  "stock1_value data = snd (stock1_loop data 1 (0, 0))"

definition stock1_solver :: "int list \<Rightarrow> string \<Rightarrow> bool" where
  "stock1_solver data ans \<longleftrightarrow> toString (stock1_value data) = ans"

subsection \<open>The factor loops return\<close>

lemma divide_out_total:
  "0 < n \<Longrightarrow> 2 \<le> fac \<Longrightarrow> \<exists>r. divide_out n fac = Some r \<and> 0 < r \<and> r \<le> n"
proof (induction "nat n" arbitrary: n rule: less_induct)
  case less
  show ?case
  proof (cases "n mod fac = 0")
    case True
    then obtain k where k: "n = fac * k" by auto
    with less.prems have kpos: "0 < k"
      by (simp add: zero_less_mult_iff)
    have "k * 2 \<le> k * fac" using kpos less.prems(2) by (intro mult_left_mono) simp_all
    then have "k < fac * k" using kpos by (simp add: mult.commute)
    with k kpos less.prems have d: "0 < n div fac" "n div fac < n"
      by simp_all
    then have "nat (n div fac) < nat n" by simp
    from less.hyps [OF this d(1) less.prems(2)] obtain r
      where "divide_out (n div fac) fac = Some r" "0 < r" "r \<le> n div fac" by blast
    with True less.prems d show ?thesis
      by (subst divide_out.simps) auto
  next
    case False
    with less.prems show ?thesis by (subst divide_out.simps) auto
  qed
qed

lemma lpf_loop_total: "2 \<le> fac \<Longrightarrow> \<exists>r. lpf_loop n fac = Some r"
proof (induction "nat (n + 1 - (fac - 1) * (fac - 1))" arbitrary: n fac rule: less_induct)
  case less
  show ?case
  proof (cases "n > (fac - 1) * (fac - 1)")
    case True
    with less.prems have "0 < n"
      by (smt (verit) mult_nonneg_nonneg)
    from divide_out_total [OF this less.prems] obtain n'
      where n': "divide_out n fac = Some n'" "0 < n'" "n' \<le> n" by blast
    have "(fac - 1) * (fac - 1) < fac * fac" using less.prems
      by (simp add: algebra_simps)
    then have "nat (n' + 1 - (fac + 1 - 1) * (fac + 1 - 1)) < nat (n + 1 - (fac - 1) * (fac - 1))"
      using True n' by simp
    from less.hyps [OF this] less.prems obtain r where "lpf_loop n' (fac + 1) = Some r"
      by auto
    with True n' show ?thesis by (subst lpf_loop.simps) simp
  next
    case False
    then show ?thesis by (subst lpf_loop.simps) simp
  qed
qed

lemma lpf_value_total: "\<exists>v. lpf_value data = Some v"
  using lpf_loop_total [of 2 data] by (auto simp: lpf_value_def)

section \<open>Algorithmic Stock Trader IV\<close>

text \<open>
  \<^verbatim>\<open>
  solver: (data: [number, number[]], ans: string): boolean => {
    const k: number = data[0];
    const prices: number[] = data[1];
    const len = prices.length;
    if (len < 2) {
      return parseInt(ans) === 0;
    }
    if (k > len / 2) {
      let res = 0;
      for (let i = 1; i < len; ++i) {
        res += Math.max(prices[i] - prices[i - 1], 0);
      }
      return parseInt(ans) === res;
    }
    const hold: number[] = [];
    const rele: number[] = [];
    hold.length = k + 1;
    rele.length = k + 1;
    for (let i = 0; i <= k; ++i) {
      hold[i] = Number.MIN_SAFE_INTEGER;
      rele[i] = 0;
    }
    let cur: number;
    for (let i = 0; i < len; ++i) {
      cur = prices[i];
      for (let j = k; j > 0; --j) {
        rele[j] = Math.max(rele[j], hold[j] + cur);
        hold[j] = Math.max(hold[j], rele[j - 1] - cur);
      }
    }
    return parseInt(ans) === rele[k];
  }
  \<close>
  The transaction bound \<open>k\<close> is a natural number, prices are integers, and the two arrays
  are lists of length \<open>k + 1\<close> updated in place.
\<close>

definition MIN_SAFE_INTEGER :: int where
  "MIN_SAFE_INTEGER = - (2 ^ 53 - 1)"

text \<open>
  A state holds JavaScript numbers. An integer of the model stands for such a number, and
  the arithmetic of the model for the arithmetic of the solver, on the safe integers
  (\<^verbatim>\<open>Number.isSafeInteger\<close>).
\<close>

definition isSafeInteger :: "int \<Rightarrow> bool" where
  "isSafeInteger n \<longleftrightarrow> MIN_SAFE_INTEGER \<le> n \<and> n \<le> - MIN_SAFE_INTEGER"

text \<open>
  \<^verbatim>\<open>
  generate: (): [number, number[]] => {
    const k = getRandomIntInclusive(2, 10);
    const len = getRandomIntInclusive(3, 50);
    const prices: number[] = [];
    prices.length = len;
    for (let i = 0; i < len; ++i) {
      prices[i] = getRandomIntInclusive(1, 200);
    }
    return [k, prices];
  }
  \<close>
  The states the generator can return.
\<close>

definition stock4_generated :: "nat \<times> int list \<Rightarrow> bool" where
  "stock4_generated data \<longleftrightarrow>
     2 \<le> fst data \<and> fst data \<le> 10
     \<and> 3 \<le> length (snd data) \<and> length (snd data) \<le> 50
     \<and> list_all (\<lambda>p. 1 \<le> p \<and> p \<le> 200) (snd data)"

text \<open>The special-cased branch: the sum of the positive day-to-day differences.\<close>

function stock4_greedy_loop :: "int list \<Rightarrow> nat \<Rightarrow> int \<Rightarrow> int" where
  "stock4_greedy_loop prices i res =
     (if i < length prices
      then stock4_greedy_loop prices (i + 1) (res + max (prices ! i - prices ! (i - 1)) 0)
      else res)"
  by pat_completeness auto
termination
  by (relation "measure (\<lambda>(prices, i, _). length prices - i)") auto

declare stock4_greedy_loop.simps [simp del]

definition stock4_greedy :: "int list \<Rightarrow> int" where
  "stock4_greedy prices = stock4_greedy_loop prices 1 0"

text \<open>The general branch: the inner loop runs \<open>j\<close> from \<open>k\<close> down to \<open>1\<close>, the outer loop
  over the prices in order.\<close>

fun stock4_inner :: "int \<Rightarrow> nat \<Rightarrow> int list \<times> int list \<Rightarrow> int list \<times> int list" where
  "stock4_inner cur 0 (hold, rele) = (hold, rele)"
| "stock4_inner cur (Suc j') (hold, rele) =
     (let j = Suc j';
          rele' = rele[j := max (rele ! j) (hold ! j + cur)];
          hold' = hold[j := max (hold ! j) (rele' ! (j - 1) - cur)]
      in stock4_inner cur j' (hold', rele'))"

fun stock4_outer :: "nat \<Rightarrow> int list \<Rightarrow> int list \<times> int list \<Rightarrow> int list \<times> int list" where
  "stock4_outer k [] st = st"
| "stock4_outer k (cur # rest) st = stock4_outer k rest (stock4_inner cur k st)"

definition stock4_dp :: "nat \<Rightarrow> int list \<Rightarrow> int" where
  "stock4_dp k prices =
     snd (stock4_outer k prices (replicate (k + 1) MIN_SAFE_INTEGER, replicate (k + 1) 0)) ! k"

text \<open>The solver; \<open>k > len / 2\<close> is a comparison of reals, that is \<open>2 * k > len\<close>.\<close>

definition stock4_special_branch :: "int list \<Rightarrow> string \<Rightarrow> bool" where
  "stock4_special_branch prices ans \<longleftrightarrow> parseInt ans = Some (stock4_greedy prices)"

definition stock4_general_branch :: "nat \<Rightarrow> int list \<Rightarrow> string \<Rightarrow> bool" where
  "stock4_general_branch k prices ans \<longleftrightarrow> parseInt ans = Some (stock4_dp k prices)"

definition stock4_solver :: "nat \<times> int list \<Rightarrow> string \<Rightarrow> bool" where
  "stock4_solver data ans =
     (let k = fst data; prices = snd data; len = length prices in
      if len < 2 then parseInt ans = Some 0
      else if 2 * k > len then stock4_special_branch prices ans
      else stock4_general_branch k prices ans)"

subsection \<open>One day of the general branch\<close>

lemma stock4_inner_spec:
  assumes "length hold = n" "length rele = n" "m < n"
  shows "case stock4_inner cur m (hold, rele) of (hold', rele') \<Rightarrow>
     length hold' = n \<and> length rele' = n \<and>
     (\<forall>j<n. rele' ! j = (if 1 \<le> j \<and> j \<le> m then max (rele ! j) (hold ! j + cur) else rele ! j)) \<and>
     (\<forall>j<n. hold' ! j = (if 1 \<le> j \<and> j \<le> m then max (hold ! j) (rele ! (j - 1) - cur) else hold ! j))"
  using assms
proof (induction m arbitrary: hold rele)
  case 0
  then show ?case by simp
next
  case (Suc m)
  define rele1 where "rele1 = rele[Suc m := max (rele ! Suc m) (hold ! Suc m + cur)]"
  define hold1 where "hold1 = hold[Suc m := max (hold ! Suc m) (rele1 ! m - cur)]"
  have len: "length hold1 = n" "length rele1 = n" "m < n"
    using Suc.prems by (simp_all add: hold1_def rele1_def)
  have step: "stock4_inner cur (Suc m) (hold, rele) = stock4_inner cur m (hold1, rele1)"
    by (simp add: hold1_def rele1_def Let_def)
  obtain hold' rele' where res: "stock4_inner cur m (hold1, rele1) = (hold', rele')"
    by (cases "stock4_inner cur m (hold1, rele1)")
  from Suc.IH [OF len] res
  have ih: "length hold' = n" "length rele' = n"
    "\<And>j. j < n \<Longrightarrow> rele' ! j = (if 1 \<le> j \<and> j \<le> m then max (rele1 ! j) (hold1 ! j + cur) else rele1 ! j)"
    "\<And>j. j < n \<Longrightarrow> hold' ! j = (if 1 \<le> j \<and> j \<le> m then max (hold1 ! j) (rele1 ! (j - 1) - cur) else hold1 ! j)"
    by auto
  have r1: "rele1 ! j = (if j = Suc m then max (rele ! j) (hold ! j + cur) else rele ! j)" if "j < n" for j
    using that Suc.prems by (simp add: rele1_def nth_list_update)
  have h1: "hold1 ! j = (if j = Suc m then max (hold ! j) (rele ! (j - 1) - cur) else hold ! j)" if "j < n" for j
    using that Suc.prems r1 [of m] by (simp add: hold1_def nth_list_update)
  have "rele' ! j = (if 1 \<le> j \<and> j \<le> Suc m then max (rele ! j) (hold ! j + cur) else rele ! j)" if "j < n" for j
    using that ih(3) [OF that] r1 [OF that] h1 [OF that] by auto
  moreover have "hold' ! j = (if 1 \<le> j \<and> j \<le> Suc m then max (hold ! j) (rele ! (j - 1) - cur) else hold ! j)" if "j < n" for j
  proof -
    have "j - 1 < n" using that by simp
    from r1 [OF this] show ?thesis
      using that ih(4) [OF that] r1 [OF that] h1 [OF that] by auto
  qed
  ultimately show ?case
    unfolding step res using ih(1,2) by simp
qed

subsection \<open>The invariant of the general branch\<close>

text \<open>The sum of the positive differences, continued from a running sum \<open>g\<close> and a
  previous price \<open>p\<close>.\<close>

fun greedy_from :: "int \<Rightarrow> int \<Rightarrow> int list \<Rightarrow> int" where
  "greedy_from g p [] = g"
| "greedy_from g p (q # rest) = greedy_from (g + max (q - p) 0) q rest"

lemma stock4_greedy_loop_from:
  "1 \<le> i \<Longrightarrow> i \<le> length prices \<Longrightarrow>
   stock4_greedy_loop prices i res = greedy_from res (prices ! (i - 1)) (drop i prices)"
proof (induction prices i res rule: stock4_greedy_loop.induct)
  case (1 prices i res)
  show ?case
  proof (cases "i < length prices")
    case True
    then have d: "drop i prices = prices ! i # drop (i + 1) prices"
      by (simp add: Cons_nth_drop_Suc)
    from True 1 show ?thesis
      by (subst stock4_greedy_loop.simps) (simp add: d)
  next
    case False
    with 1 show ?thesis
      by (subst stock4_greedy_loop.simps) simp
  qed
qed

lemma stock4_greedy_Cons: "stock4_greedy (p0 # rest) = greedy_from 0 p0 rest"
  using stock4_greedy_loop_from [of 1 "p0 # rest" 0] by (simp add: stock4_greedy_def)

text \<open>
  After \<open>m \<ge> 1\<close> days with running greedy sum \<open>g\<close> and last price \<open>p\<close>: no entry of
  \<open>rele\<close> exceeds \<open>g\<close>, no entry of \<open>hold\<close> exceeds \<open>g - p\<close>, and the entries with enough
  transactions have reached these bounds.
\<close>

definition stock4_inv :: "nat \<Rightarrow> nat \<Rightarrow> int \<Rightarrow> int \<Rightarrow> int list \<times> int list \<Rightarrow> bool" where
  "stock4_inv k m g p st \<longleftrightarrow>
     (case st of (hold, rele) \<Rightarrow>
        length hold = k + 1 \<and> length rele = k + 1 \<and>
        (\<forall>j\<le>k. rele ! j \<le> g \<and> hold ! j \<le> g - p) \<and>
        (\<forall>j\<le>k. m \<le> 2 * j \<longrightarrow> g \<le> rele ! j) \<and>
        (\<forall>j\<le>k. m + 1 \<le> 2 * j \<longrightarrow> g - p \<le> hold ! j))"

lemma stock4_inv_first_day:
  assumes "p0 \<le> 2 ^ 53 - 1"
  shows "stock4_inv k 1 0 p0
           (stock4_inner p0 k (replicate (k + 1) MIN_SAFE_INTEGER, replicate (k + 1) 0))"
proof -
  define h0 where "h0 = replicate (k + 1) MIN_SAFE_INTEGER"
  define r0 :: "int list" where "r0 = replicate (k + 1) 0"
  have len: "length h0 = k + 1" "length r0 = k + 1"
    by (simp_all add: h0_def r0_def)
  have nth: "h0 ! j = MIN_SAFE_INTEGER" "r0 ! j = 0" if "j \<le> k" for j
    using that unfolding h0_def r0_def by (simp_all del: replicate_Suc)
  obtain hold' rele' where res: "stock4_inner p0 k (h0, r0) = (hold', rele')"
    by (cases "stock4_inner p0 k (h0, r0)")
  from stock4_inner_spec [OF len, of k p0]
  have sp: "length hold' = k + 1" "length rele' = k + 1"
    "\<And>j. j \<le> k \<Longrightarrow> rele' ! j = (if 1 \<le> j then max (r0 ! j) (h0 ! j + p0) else r0 ! j)"
    "\<And>j. j \<le> k \<Longrightarrow> hold' ! j = (if 1 \<le> j then max (h0 ! j) (r0 ! (j - 1) - p0) else h0 ! j)"
    by (auto simp: res)
  have m: "MIN_SAFE_INTEGER + p0 \<le> 0" "MIN_SAFE_INTEGER \<le> - p0"
    using assms by (simp_all add: MIN_SAFE_INTEGER_def)
  have r: "rele' ! j = 0" if "j \<le> k" for j
    using sp(3) [OF that] nth [OF that] m by simp
  have h: "hold' ! j = (if 1 \<le> j then - p0 else MIN_SAFE_INTEGER)" if "j \<le> k" for j
  proof -
    have "j - 1 \<le> k" using that by simp
    from nth(2) [OF this] sp(4) [OF that] nth(1) [OF that] m show ?thesis by simp
  qed
  have "stock4_inv k 1 0 p0 (hold', rele')"
    unfolding stock4_inv_def using sp(1,2) r h m by auto
  then show ?thesis
    unfolding res [symmetric] h0_def r0_def .
qed

lemma stock4_inv_next_day:
  assumes inv: "stock4_inv k m g p st" and m: "1 \<le> m"
  shows "stock4_inv k (m + 1) (g + max (q - p) 0) q (stock4_inner q k st)"
proof -
  obtain hold rele where st: "st = (hold, rele)" by (cases st)
  obtain hold' rele' where res: "stock4_inner q k (hold, rele) = (hold', rele')"
    by (cases "stock4_inner q k (hold, rele)")
  from inv have len: "length hold = k + 1" "length rele = k + 1"
    and up: "\<And>j. j \<le> k \<Longrightarrow> rele ! j \<le> g" "\<And>j. j \<le> k \<Longrightarrow> hold ! j \<le> g - p"
    and lr: "\<And>j. j \<le> k \<Longrightarrow> m \<le> 2 * j \<Longrightarrow> g \<le> rele ! j"
    and lh: "\<And>j. j \<le> k \<Longrightarrow> m + 1 \<le> 2 * j \<Longrightarrow> g - p \<le> hold ! j"
    by (auto simp: stock4_inv_def st)
  from stock4_inner_spec [OF len, of k q]
  have sp: "length hold' = k + 1" "length rele' = k + 1"
    "\<And>j. j \<le> k \<Longrightarrow> rele' ! j = (if 1 \<le> j then max (rele ! j) (hold ! j + q) else rele ! j)"
    "\<And>j. j \<le> k \<Longrightarrow> hold' ! j = (if 1 \<le> j then max (hold ! j) (rele ! (j - 1) - q) else hold ! j)"
    by (auto simp: res)
  have a: "rele' ! j \<le> g + max (q - p) 0 \<and> hold' ! j \<le> g + max (q - p) 0 - q" if "j \<le> k" for j
  proof -
    have "j - 1 \<le> k" using that by simp
    from up(1) [OF this] up(1) [OF that] up(2) [OF that] sp(3) [OF that] sp(4) [OF that]
    show ?thesis by (auto simp: max_def)
  qed
  have b: "g + max (q - p) 0 \<le> rele' ! j" if "j \<le> k" "m + 1 \<le> 2 * j" for j
  proof -
    have "1 \<le> j" "m \<le> 2 * j" using that m by simp_all
    with lr [of j] lh [of j] that sp(3) [OF that(1)] show ?thesis by (auto simp: max_def)
  qed
  have c: "g + max (q - p) 0 - q \<le> hold' ! j" if "j \<le> k" "m + 1 + 1 \<le> 2 * j" for j
  proof -
    have "1 \<le> j" "m + 1 \<le> 2 * j" "j - 1 \<le> k" "m \<le> 2 * (j - 1)" using that m by simp_all
    with lr [of "j - 1"] lh [of j] that sp(4) [OF that(1)] show ?thesis by (auto simp: max_def)
  qed
  show ?thesis
    unfolding stock4_inv_def st res using sp(1,2) a b c by auto
qed

lemma stock4_inv_outer:
  "stock4_inv k m g p st \<Longrightarrow> 1 \<le> m \<Longrightarrow>
   stock4_inv k (m + length rest) (greedy_from g p rest) (last (p # rest)) (stock4_outer k rest st)"
proof (induction rest arbitrary: m g p st)
  case Nil
  then show ?case by simp
next
  case (Cons q rest)
  from stock4_inv_next_day [OF Cons.prems, of q]
  have "stock4_inv k (m + 1) (g + max (q - p) 0) q (stock4_inner q k st)" .
  from Cons.IH [OF this] show ?case by simp
qed

lemma stock4_dp_greedy:
  assumes "prices \<noteq> []" "prices ! 0 \<le> 2 ^ 53 - 1" "length prices \<le> 2 * k"
  shows "stock4_dp k prices = stock4_greedy prices"
proof -
  from assms(1) obtain p0 rest where pr: "prices = p0 # rest" by (cases prices) auto
  define st where "st = stock4_outer k rest
     (stock4_inner p0 k (replicate (k + 1) MIN_SAFE_INTEGER, replicate (k + 1) 0))"
  have "stock4_inv k (1 + length rest) (greedy_from 0 p0 rest) (last (p0 # rest)) st"
    unfolding st_def using assms(2) pr
    by (intro stock4_inv_outer stock4_inv_first_day) simp_all
  then have "snd st ! k \<le> greedy_from 0 p0 rest" "greedy_from 0 p0 rest \<le> snd st ! k"
    using assms(3) pr by (auto simp: stock4_inv_def split: prod.splits)
  then show ?thesis
    by (simp add: stock4_dp_def pr st_def stock4_greedy_Cons)
qed

subsection \<open>The two branches agree\<close>

lemma stock4_generated_safe:
  "stock4_generated (k, prices) \<Longrightarrow> list_all isSafeInteger prices"
  by (auto simp: stock4_generated_def isSafeInteger_def MIN_SAFE_INTEGER_def list_all_iff)

lemma stock4_safe_first_price:
  assumes "prices \<noteq> []" and "list_all isSafeInteger prices"
  shows "prices ! 0 \<le> 2 ^ 53 - 1"
proof -
  from assms(1) have "prices ! 0 \<in> set prices" by simp
  with assms(2) have "isSafeInteger (prices ! 0)" by (simp add: list_all_iff)
  then show ?thesis by (simp add: isSafeInteger_def MIN_SAFE_INTEGER_def)
qed

text \<open>
  Claim C4. For every state \<open>[k, prices]\<close> of safe integers, so for every state the
  generator returns, with at least two prices and more than half as many transactions as
  prices (\<open>k > n / 2\<close>), the sum of the positive day-to-day differences computed by the
  special-cased branch equals the entry \<open>rele[k]\<close> computed by the general hold/release
  dynamic program for at most \<open>k\<close> transactions. So the special-cased branch and the general
  branch accept exactly the same answer strings, and the solver, which takes the
  special-cased branch on such a state, accepts what the general branch would.
\<close>

theorem stock4_branches_agree:
  assumes "2 \<le> length prices" and "length prices < 2 * k"
    and "list_all isSafeInteger prices"
  shows "stock4_greedy prices = stock4_dp k prices
    \<and> (\<forall>ans. stock4_special_branch prices ans = stock4_general_branch k prices ans)
    \<and> (\<forall>ans. stock4_solver (k, prices) ans = stock4_general_branch k prices ans)"
proof -
  from assms(1) have ne: "prices \<noteq> []" by auto
  from assms(2) have le: "length prices \<le> 2 * k" by simp
  have eq: "stock4_dp k prices = stock4_greedy prices"
    by (rule stock4_dp_greedy [OF ne stock4_safe_first_price [OF ne assms(3)] le])
  then show ?thesis
    using assms(1,2)
    by (simp add: stock4_special_branch_def stock4_general_branch_def stock4_solver_def Let_def)
qed

text \<open>
  A state of the generator: four transactions over the six prices \<open>3, 2, 6, 5, 1, 3\<close>.
  Both branches compute \<open>(6 - 2) + (3 - 1) = 6\<close>.
\<close>

theorem stock4_branches_agree_witness:
  "stock4_generated (4, [3, 2, 6, 5, 1, 3])
   \<and> 2 \<le> length [3, 2, 6, 5, 1, 3 :: int] \<and> length [3, 2, 6, 5, 1, 3 :: int] < 2 * 4
   \<and> list_all isSafeInteger [3, 2, 6, 5, 1, 3]
   \<and> stock4_greedy [3, 2, 6, 5, 1, 3] = 6 \<and> stock4_dp 4 [3, 2, 6, 5, 1, 3] = 6
   \<and> stock4_solver (4, [3, 2, 6, 5, 1, 3]) ''6''
   \<and> stock4_general_branch 4 [3, 2, 6, 5, 1, 3] ''6''"
proof -
  have gen: "stock4_generated (4, [3, 2, 6, 5, 1, 3])" by code_simp
  have h: "2 \<le> length [3, 2, 6, 5, 1, 3 :: int]" "length [3, 2, 6, 5, 1, 3 :: int] < 2 * 4"
    by simp_all
  have safe: "list_all isSafeInteger [3, 2, 6, 5, 1, 3]" by (rule stock4_generated_safe [OF gen])
  have g: "stock4_greedy [3, 2, 6, 5, 1, 3] = 6" by code_simp
  have a: "stock4_special_branch [3, 2, 6, 5, 1, 3] ''6''" by code_simp
  from stock4_branches_agree [OF h safe] g h gen safe a show ?thesis by simp
qed

text \<open>
  The generator's states with \<open>k > n / 2\<close> are covered: their prices lie between 1 and 200.
\<close>

lemma stock4_generated_agree:
  assumes "stock4_generated (k, prices)" and "length prices < 2 * k"
  shows "stock4_greedy prices = stock4_dp k prices"
proof -
  from assms(1) have "prices \<noteq> []" by (auto simp: stock4_generated_def)
  from stock4_dp_greedy [OF this stock4_safe_first_price [OF this stock4_generated_safe [OF assms(1)]]]
    assms(2)
  show ?thesis by simp
qed
section \<open>Tolerance of the integer parse\<close>

lemma digit_char_nonzero: "0 < d \<Longrightarrow> d < 10 \<Longrightarrow> digit_char d \<noteq> CHR ''0''"
proof
  assume d: "0 < d" "d < 10" and e: "digit_char d = CHR ''0''"
  from e have "charCode (digit_char d) = charCode CHR ''0''" by simp
  with d show False by (simp add: charCode_digit_char) (simp add: charCode_def)
qed

lemma nat_digits_no_leading_zero: "0 < n \<Longrightarrow> hd (nat_digits n) \<noteq> CHR ''0''"
proof (induction n rule: nat_digits.induct)
  case (1 n)
  show ?case
  proof (cases "n < 10")
    case True
    with "1.prems" show ?thesis
      by (subst nat_digits.simps) (simp add: digit_char_nonzero)
  next
    case False
    then have "0 < n div 10" by simp
    with "1.IH" False have "hd (nat_digits (n div 10)) \<noteq> CHR ''0''" by simp
    with False show ?thesis
      by (subst nat_digits.simps) (simp add: nat_digits_nonempty)
  qed
qed

lemma nat_digits_0: "nat_digits 0 = ''0''"
  by code_simp

text \<open>Without a radix, a text that starts with \<open>0x\<close> is read in base 16; the decimal
  text of an integer starts so only when the integer is \<open>0\<close> and the suffix starts
  with \<open>x\<close> or \<open>X\<close>.\<close>

lemma parseInt_plain:
  assumes "s \<noteq> []" and "\<not> js_whitespace (hd s)" and "hd s \<noteq> CHR ''-''" and "hd s \<noteq> CHR ''+''"
    and "take 2 s \<noteq> ''0x''" and "take 2 s \<noteq> ''0X''"
  shows "parseInt s =
     (if takeWhile (radix_digit 10) s = [] then None
      else Some (int (digits_value 10 (takeWhile (radix_digit 10) s))))"
proof -
  have "dropWhile js_whitespace s = s" using assms(1,2) by (cases s) auto
  then show ?thesis
    using assms by (simp add: parseInt_radix_def Let_def)
qed

lemma parseInt_minus:
  assumes "take 2 s \<noteq> ''0x''" and "take 2 s \<noteq> ''0X''"
  shows "parseInt (CHR ''-'' # s) =
     (if takeWhile (radix_digit 10) s = [] then None
      else Some (- int (digits_value 10 (takeWhile (radix_digit 10) s))))"
proof -
  have ws: "\<not> js_whitespace CHR ''-''"
    by (simp add: js_whitespace_def charCode_def)
  then have "dropWhile js_whitespace (CHR ''-'' # s) = CHR ''-'' # s" by simp
  then show ?thesis
    using assms by (simp add: parseInt_radix_def Let_def)
qed

lemma no_hex_prefix:
  assumes "n = 0 \<longrightarrow> suffix = [] \<or> (hd suffix \<noteq> CHR ''x'' \<and> hd suffix \<noteq> CHR ''X'')"
  shows "take 2 (nat_digits n @ suffix) \<noteq> ''0x'' \<and> take 2 (nat_digits n @ suffix) \<noteq> ''0X''"
proof (cases "n = 0")
  case True
  with assms show ?thesis
    by (cases suffix) (auto simp: nat_digits_0)
next
  case False
  obtain c cs where cs: "nat_digits n = c # cs"
    using nat_digits_nonempty [of n] by (cases "nat_digits n") auto
  from False have "c \<noteq> CHR ''0''" using nat_digits_no_leading_zero [of n] cs by simp
  then show ?thesis by (simp add: cs)
qed

lemma parseInt_nat:
  assumes "suffix = [] \<or> \<not> is_digit (hd suffix)"
    and "n = 0 \<longrightarrow> suffix = [] \<or> (hd suffix \<noteq> CHR ''x'' \<and> hd suffix \<noteq> CHR ''X'')"
  shows "parseInt (nat_digits n @ suffix) = Some (int n)"
proof -
  define s where "s = nat_digits n @ suffix"
  have ne: "s \<noteq> []" using nat_digits_nonempty [of n] by (simp add: s_def)
  have hd: "hd s = hd (nat_digits n)" using nat_digits_nonempty [of n] by (simp add: s_def)
  have c: "is_digit (hd s)" using hd_nat_digits_digit [of n] hd by simp
  have tw: "takeWhile (radix_digit 10) s = nat_digits n"
    using takeWhile_digits_suffix [OF nat_digits_all_digits assms(1), of n]
    by (simp add: radix_digit_10 [abs_def] s_def)
  have nohex: "take 2 s \<noteq> ''0x''" "take 2 s \<noteq> ''0X''"
    using no_hex_prefix [OF assms(2)] by (simp_all add: s_def)
  have "parseInt s = Some (int n)"
    unfolding parseInt_plain [OF ne is_digit_not_ws [OF c]
        is_digit_not_sign [OF c, THEN conjunct1] is_digit_not_sign [OF c, THEN conjunct2] nohex]
    by (simp add: tw nat_digits_nonempty digits_value_nat_digits)
  then show ?thesis by (simp add: s_def)
qed

lemma parseInt_neg:
  assumes "suffix = [] \<or> \<not> is_digit (hd suffix)" and "0 < n"
  shows "parseInt (CHR ''-'' # nat_digits n @ suffix) = Some (- int n)"
proof -
  have tw: "takeWhile (radix_digit 10) (nat_digits n @ suffix) = nat_digits n"
    using takeWhile_digits_suffix [OF nat_digits_all_digits assms(1), of n]
    by (simp add: radix_digit_10 [abs_def])
  have "n = 0 \<longrightarrow> suffix = [] \<or> (hd suffix \<noteq> CHR ''x'' \<and> hd suffix \<noteq> CHR ''X'')"
    using assms(2) by simp
  from no_hex_prefix [OF this]
  have nohex: "take 2 (nat_digits n @ suffix) \<noteq> ''0x''" "take 2 (nat_digits n @ suffix) \<noteq> ''0X''"
    by simp_all
  show ?thesis
    unfolding parseInt_minus [OF nohex]
    by (simp add: tw nat_digits_nonempty digits_value_nat_digits)
qed

lemma parseInt_toString:
  assumes "suffix = [] \<or> \<not> is_digit (hd suffix)"
    and "v = 0 \<longrightarrow> suffix = [] \<or> (hd suffix \<noteq> CHR ''x'' \<and> hd suffix \<noteq> CHR ''X'')"
  shows "parseInt (toString v @ suffix) = Some v"
proof (cases "v < 0")
  case True
  then have "0 < nat (- v)" by simp
  from parseInt_neg [OF assms(1) this] True show ?thesis by (simp add: toString_def)
next
  case False
  with assms(2) have "nat v = 0 \<longrightarrow> suffix = [] \<or> (hd suffix \<noteq> CHR ''x'' \<and> hd suffix \<noteq> CHR ''X'')"
    by auto
  from parseInt_nat [OF assms(1) this] False show ?thesis by (simp add: toString_def)
qed

text \<open>The number the Algorithmic Stock Trader IV solver compares the parsed answer with.\<close>

definition stock4_value :: "nat \<times> int list \<Rightarrow> int" where
  "stock4_value data =
     (if length (snd data) < 2 then 0
      else if 2 * fst data > length (snd data) then stock4_greedy (snd data)
      else stock4_dp (fst data) (snd data))"

lemma stock4_solver_value: "stock4_solver data ans \<longleftrightarrow> parseInt ans = Some (stock4_value data)"
  by (simp add: stock4_solver_def stock4_value_def Let_def
      stock4_special_branch_def stock4_general_branch_def)

text \<open>
  Claim C8, as the code has it. Find Largest Prime Factor reads the answer with
  \<open>parseInt(ans, 10)\<close>: its loops return for every input, and the decimal text of the
  value they compute is accepted with any suffix that does not start with a digit.
  Algorithmic Stock Trader IV reads it with \<open>parseInt(ans)\<close>: the same holds, except
  that after the answer \<open>0\<close> the suffix must not start with \<open>x\<close> or \<open>X\<close>, which would be
  read as the prefix of a hexadecimal number. Algorithmic Stock Trader I compares the
  answer with the decimal text of the best profit character for character, so it
  accepts that text alone.
\<close>

theorem integer_answer_parsing:
  "(\<exists>v. lpf_value data = Some v
      \<and> (\<forall>suffix. suffix = [] \<or> \<not> is_digit (hd suffix)
            \<longrightarrow> lpf_solver data (toString v @ suffix) = Some True))
   \<and> (\<forall>suffix. (suffix = [] \<or> \<not> is_digit (hd suffix))
          \<and> (stock4_value state = 0 \<longrightarrow>
                suffix = [] \<or> (hd suffix \<noteq> CHR ''x'' \<and> hd suffix \<noteq> CHR ''X''))
          \<longrightarrow> stock4_solver state (toString (stock4_value state) @ suffix))
   \<and> (stock1_solver prices ans \<longleftrightarrow> ans = toString (stock1_value prices))"
proof (intro conjI)
  obtain v where v: "lpf_value data = Some v"
    using lpf_value_total by blast
  have "lpf_solver data (toString v @ suffix) = Some True"
    if "suffix = [] \<or> \<not> is_digit (hd suffix)" for suffix
    using parseInt10_toString [OF that, of v] v by (simp add: lpf_solver_def)
  with v show "\<exists>v. lpf_value data = Some v
      \<and> (\<forall>suffix. suffix = [] \<or> \<not> is_digit (hd suffix)
            \<longrightarrow> lpf_solver data (toString v @ suffix) = Some True)"
    by blast
next
  show "\<forall>suffix. (suffix = [] \<or> \<not> is_digit (hd suffix))
          \<and> (stock4_value state = 0 \<longrightarrow>
                suffix = [] \<or> (hd suffix \<noteq> CHR ''x'' \<and> hd suffix \<noteq> CHR ''X''))
          \<longrightarrow> stock4_solver state (toString (stock4_value state) @ suffix)"
    using parseInt_toString [of _ "stock4_value state"]
    by (simp add: stock4_solver_value)
next
  show "stock1_solver prices ans \<longleftrightarrow> ans = toString (stock1_value prices)"
    by (auto simp: stock1_solver_def)
qed

theorem integer_answer_parsing_witness:
  "lpf_value 500 = Some 5 \<and> \<not> is_digit (hd ''abc'')
   \<and> lpf_solver 500 ''5abc'' = Some True
   \<and> stock4_value (2, [3, 2, 6, 5, 0, 3]) = 7
   \<and> stock4_solver (2, [3, 2, 6, 5, 0, 3]) ''7abc''
   \<and> stock1_solver [1, 3, 2] ''2''"
proof -
  have v: "lpf_value 500 = Some 5" by code_simp
  have s: "\<not> is_digit (hd ''abc'')" by code_simp
  have t5: "toString 5 = ''5''" by code_simp
  have t2: "toString (stock1_value [1, 3, 2]) = ''2''" by code_simp
  have v4: "stock4_value (2, [3, 2, 6, 5, 0, 3]) = 7" by code_simp
  have t7: "toString 7 = ''7''" by code_simp
  from integer_answer_parsing [of 500 "(2, [3, 2, 6, 5, 0, 3])" "[1, 3, 2]" "''2''"] v s v4
  have "lpf_solver 500 (toString 5 @ ''abc'') = Some True"
    "stock4_solver (2, [3, 2, 6, 5, 0, 3]) (toString 7 @ ''abc'')"
    "stock1_solver [1, 3, 2] ''2''"
    by (auto simp: t2)
  with v s t5 t7 v4 show ?thesis by simp
qed

text \<open>
  The claim as stated fails for Algorithmic Stock Trader I: for the prices \<open>[1, 3, 2]\<close>
  the best profit is \<open>2\<close>, its decimal text is accepted, and the same text followed by
  letters is rejected.
\<close>

theorem stock1_suffix_counterexample:
  "toString (stock1_value [1, 3, 2]) = ''2''
   \<and> stock1_solver [1, 3, 2] ''2''
   \<and> \<not> stock1_solver [1, 3, 2] (''2'' @ ''abc'')"
  by code_simp

text \<open>The exception in Algorithmic Stock Trader IV: for falling prices the answer is
  \<open>0\<close>, and \<open>0\<close> followed by \<open>xa\<close> is read as the hexadecimal number ten.\<close>

lemma stock4_hex_suffix:
  "stock4_value (2, [3, 2, 1]) = 0 \<and> stock4_solver (2, [3, 2, 1]) ''0''
   \<and> parseInt ''0xa'' = Some 10 \<and> \<not> stock4_solver (2, [3, 2, 1]) ''0xa''"
  by code_simp

section \<open>Compression I: RLE Compression\<close>

text \<open>
  \<^verbatim>\<open>
  solver: (plain: string, ans: string): boolean => {
    if (ans.length % 2 !== 0) {
      return false;
    }
    let ans_plain = "";
    for (let i = 0; i + 1 < ans.length; i += 2) {
      const length = ans.charCodeAt(i) - 0x30;
      if (length < 0 || length > 9) {
        return false;
      }
      ans_plain += ans[i + 1].repeat(length);
    }
    if (ans_plain !== plain) {
      return false;
    }
    let length = 0;
    for (let i = 0; i < plain.length; ) {
      let run_length = 1;
      while (i + run_length < plain.length && plain[i + run_length] === plain[i]) {
        ++run_length;
      }
      i += run_length;
      while (run_length > 0) {
        run_length -= 9;
        length += 2;
      }
    }
    return ans.length <= length;
  }
  \<close>
  The decoding loop returns \<open>None\<close> where the solver leaves with \<open>false\<close>.
\<close>

function rle_decode_loop :: "string \<Rightarrow> nat \<Rightarrow> string \<Rightarrow> string option" where
  "rle_decode_loop ans i ans_plain =
     (if i + 1 < length ans then
        let len = int (charCode (ans ! i)) - 0x30 in
        if len < 0 \<or> len > 9 then None
        else rle_decode_loop ans (i + 2) (ans_plain @ replicate (nat len) (ans ! (i + 1)))
      else Some ans_plain)"
  by pat_completeness auto
termination
  by (relation "measure (\<lambda>(ans, i, _). length ans - i)") auto

function rle_run :: "string \<Rightarrow> nat \<Rightarrow> nat \<Rightarrow> nat" where
  "rle_run plain i run_length =
     (if i + run_length < length plain \<and> plain ! (i + run_length) = plain ! i
      then rle_run plain i (run_length + 1)
      else run_length)"
  by pat_completeness auto
termination
  by (relation "measure (\<lambda>(plain, i, run_length). length plain - (i + run_length))") auto

function rle_chunks :: "int \<Rightarrow> nat \<Rightarrow> nat" where
  "rle_chunks run_length len =
     (if run_length > 0 then rle_chunks (run_length - 9) (len + 2) else len)"
  by pat_completeness auto
termination
  by (relation "measure (\<lambda>(run_length, _). nat run_length)") auto

declare rle_decode_loop.simps [simp del] rle_run.simps [simp del] rle_chunks.simps [simp del]

lemma rle_run_ge: "run_length \<le> rle_run plain i run_length"
proof (induction plain i run_length rule: rle_run.induct)
  case (1 plain i run_length)
  then show ?case by (subst rle_run.simps) auto
qed

function rle_min_loop :: "string \<Rightarrow> nat \<Rightarrow> nat \<Rightarrow> nat" where
  "rle_min_loop plain i len =
     (if i < length plain then
        let run_length = rle_run plain i 1
        in rle_min_loop plain (i + run_length) (rle_chunks (int run_length) len)
      else len)"
  by pat_completeness auto
termination
proof (relation "measure (\<lambda>(plain, i, _). length plain - i)")
  fix plain :: string and i len :: nat and x
  assume "i < length plain" "x = rle_run plain i 1"
  then show "((plain, i + x, rle_chunks (int x) len), (plain, i, len)) \<in> measure (\<lambda>(plain, i, _). length plain - i)"
    using rle_run_ge [of 1 plain i] by simp
qed simp

declare rle_min_loop.simps [simp del]

definition rle_solver :: "string \<Rightarrow> string \<Rightarrow> bool" where
  "rle_solver plain ans =
     (if length ans mod 2 \<noteq> 0 then False
      else case rle_decode_loop ans 0 [] of
             None \<Rightarrow> False
           | Some ans_plain \<Rightarrow>
               if ans_plain \<noteq> plain then False
               else length ans \<le> rle_min_loop plain 0 0)"

subsection \<open>What the specification says\<close>

text \<open>The chunks of an answer are its consecutive pairs (length character, run character);
  decoding repeats each run character as often as its length character says.\<close>

fun rle_pairs :: "string \<Rightarrow> (char \<times> char) list" where
  "rle_pairs (d # c # rest) = (d, c) # rle_pairs rest"
| "rle_pairs _ = []"

definition rle_decoded :: "string \<Rightarrow> string" where
  "rle_decoded ans = concat (map (\<lambda>(d, c). replicate (charCode d - 48) c) (rle_pairs ans))"

text \<open>The lengths of the maximal runs of equal characters, and the least encoded length
  \<open>\<Sum> ceil(run / 9) * 2\<close>.\<close>

function run_lengths :: "string \<Rightarrow> nat list" where
  "run_lengths [] = []"
| "run_lengths (c # cs) =
     Suc (length (takeWhile (\<lambda>x. x = c) cs)) # run_lengths (dropWhile (\<lambda>x. x = c) cs)"
  by pat_completeness auto
termination
  by (relation "measure length") (auto simp: length_dropWhile_le less_Suc_eq_le)

definition rle_min_length :: "string \<Rightarrow> nat" where
  "rle_min_length plain = (\<Sum>r\<leftarrow>run_lengths plain. ((r + 8) div 9) * 2)"

subsection \<open>The decoding loop\<close>

lemma rle_digit_range: "is_digit d \<longleftrightarrow> \<not> (int (charCode d) - 0x30 < 0 \<or> int (charCode d) - 0x30 > 9)"
  by (auto simp: is_digit_def)

lemma rle_pairs_short: "length xs \<le> 1 \<Longrightarrow> rle_pairs xs = []"
  by (cases xs rule: rle_pairs.cases) auto

lemma rle_decode_loop_eq:
  "rle_decode_loop ans i acc =
     (if \<forall>(d, c) \<in> set (rle_pairs (drop i ans)). is_digit d
      then Some (acc @ rle_decoded (drop i ans)) else None)"
proof (induction ans i acc rule: rle_decode_loop.induct)
  case (1 ans i acc)
  show ?case
  proof (cases "i + 1 < length ans")
    case True
    then have d: "drop i ans = ans ! i # ans ! (i + 1) # drop (i + 2) ans"
      by (metis Cons_nth_drop_Suc Suc_eq_plus1 add_2_eq_Suc' add_lessD1)
    show ?thesis
    proof (cases "is_digit (ans ! i)")
      case False
      then have "int (charCode (ans ! i)) - 0x30 < 0 \<or> int (charCode (ans ! i)) - 0x30 > 9"
        using rle_digit_range [of "ans ! i"] by blast
      with True False show ?thesis
        by (subst rle_decode_loop.simps) (simp add: d Let_def)
    next
      case dig: True
      then have r: "\<not> (int (charCode (ans ! i)) - 0x30 < 0 \<or> int (charCode (ans ! i)) - 0x30 > 9)"
        using rle_digit_range [of "ans ! i"] by blast
      have n: "nat (int (charCode (ans ! i)) - 0x30) = charCode (ans ! i) - 48"
        by simp
      from "1.IH" [OF True refl r] True dig r show ?thesis
        by (subst rle_decode_loop.simps) (simp add: d Let_def n rle_decoded_def)
    qed
  next
    case False
    then have "length (drop i ans) \<le> 1" by simp
    then have "rle_pairs (drop i ans) = []" by (rule rle_pairs_short)
    with False show ?thesis
      by (subst rle_decode_loop.simps) (simp add: rle_decoded_def)
  qed
qed

lemma rle_pairs_digits:
  "even (length ans) \<Longrightarrow>
   (\<forall>(d, c) \<in> set (rle_pairs ans). is_digit d) \<longleftrightarrow> (\<forall>i<length ans. even i \<longrightarrow> is_digit (ans ! i))"
proof (induction ans rule: rle_pairs.induct)
  case (1 d c rest)
  then have ev: "even (length rest)" by simp
  have "(\<forall>i<length (d # c # rest). even i \<longrightarrow> is_digit ((d # c # rest) ! i))
        \<longleftrightarrow> is_digit d \<and> (\<forall>i<length rest. even i \<longrightarrow> is_digit (rest ! i))"
  proof (intro iffI conjI allI impI)
    assume a: "\<forall>i<length (d # c # rest). even i \<longrightarrow> is_digit ((d # c # rest) ! i)"
    from a [rule_format, of 0] show "is_digit d" by simp
    fix i assume "i < length rest" "even i"
    with a [rule_format, of "Suc (Suc i)"] show "is_digit (rest ! i)" by simp
  next
    fix i
    assume a: "is_digit d \<and> (\<forall>i<length rest. even i \<longrightarrow> is_digit (rest ! i))"
      and i: "i < length (d # c # rest)" "even i"
    show "is_digit ((d # c # rest) ! i)"
    proof (cases i)
      case 0
      with a show ?thesis by simp
    next
      case (Suc j)
      with i obtain l where l: "j = Suc l" by (cases j) auto
      with Suc i a show ?thesis by simp
    qed
  qed
  with "1.IH" [OF ev] show ?case by simp
qed simp_all

subsection \<open>The least encoded length\<close>

lemma rle_chunks_eq: "rle_chunks z len = len + nat ((z + 8) div 9) * 2"
proof (induction z len rule: rle_chunks.induct)
  case (1 z len)
  show ?case
  proof (cases "z > 0")
    case True
    have "(z + 8) div 9 = (z - 9 + 8) div 9 + 1" by simp
    moreover have "0 \<le> (z - 9 + 8) div 9" using True by simp
    ultimately have "nat ((z + 8) div 9) = nat ((z - 9 + 8) div 9) + 1" by simp
    with "1.IH" [OF True] True show ?thesis
      by (subst rle_chunks.simps) simp
  next
    case False
    then have "(z + 8) div 9 \<le> 0" by simp
    with False show ?thesis by (subst rle_chunks.simps) simp
  qed
qed

lemma rle_run_eq:
  "i + r \<le> length plain \<Longrightarrow>
   rle_run plain i r = r + length (takeWhile (\<lambda>x. x = plain ! i) (drop (i + r) plain))"
proof (induction plain i r rule: rle_run.induct)
  case (1 plain i r)
  show ?case
  proof (cases "i + r < length plain")
    case True
    then have d: "drop (i + r) plain = plain ! (i + r) # drop (i + (r + 1)) plain"
      by (simp add: Cons_nth_drop_Suc)
    show ?thesis
    proof (cases "plain ! (i + r) = plain ! i")
      case eq: True
      from "1.IH" True eq show ?thesis
        by (subst rle_run.simps) (simp add: d)
    next
      case False
      with True show ?thesis
        by (subst rle_run.simps) (simp add: d)
    qed
  next
    case False
    then show ?thesis by (subst rle_run.simps) simp
  qed
qed

lemma rle_min_loop_eq:
  "rle_min_loop plain i len = len + rle_min_length (drop i plain)"
proof (induction plain i len rule: rle_min_loop.induct)
  case (1 plain i len)
  show ?case
  proof (cases "i < length plain")
    case True
    define n where "n = length (takeWhile (\<lambda>x. x = plain ! i) (drop (i + 1) plain))"
    have run: "rle_run plain i 1 = 1 + n"
      using True rle_run_eq [of i 1 plain] by (simp add: n_def)
    have d: "drop i plain = plain ! i # drop (i + 1) plain"
      using True by (simp add: Cons_nth_drop_Suc)
    have dw: "dropWhile (\<lambda>x. x = plain ! i) (drop (i + 1) plain) = drop (i + (1 + n)) plain"
      by (simp add: dropWhile_eq_drop n_def add.commute add.left_commute)
    have "rle_min_length (drop i plain) = ((1 + n + 8) div 9) * 2 + rle_min_length (drop (i + (1 + n)) plain)"
      unfolding rle_min_length_def d using dw n_def by simp
    moreover have "nat ((int (1 + n) + 8) div 9) = (1 + n + 8) div 9"
      by (metis nat_int of_nat_numeral of_nat_add zdiv_int)
    ultimately have "rle_min_length (drop i plain)
        = nat ((int (rle_run plain i 1) + 8) div 9) * 2
          + rle_min_length (drop (i + rle_run plain i 1) plain)"
      by (simp only: run)
    with "1.IH" [OF True refl] True show ?thesis
      by (subst rle_min_loop.simps) (simp add: rle_chunks_eq Let_def del: One_nat_def)
  next
    case False
    then show ?thesis
      by (subst rle_min_loop.simps) (simp add: rle_min_length_def)
  qed
qed

subsection \<open>The solver against the specification\<close>

text \<open>
  Claim C3. The solver accepts exactly the answers of even length whose characters at
  even positions are digits, that decode to the plaintext, and that are no longer than
  the least encoded length, the sum over the maximal runs of \<open>ceil(run_length / 9) * 2\<close>.
  For the plaintext \<open>aaaaabccc\<close>, \<open>5a1b3c\<close> is accepted and \<open>5a1b2c1c\<close> is rejected.
\<close>

theorem rle_solver_spec:
  "(rle_solver plain ans \<longleftrightarrow>
      even (length ans)
      \<and> (\<forall>i<length ans. even i \<longrightarrow> is_digit (ans ! i))
      \<and> rle_decoded ans = plain
      \<and> length ans \<le> rle_min_length plain)
   \<and> rle_solver ''aaaaabccc'' ''5a1b3c''
   \<and> \<not> rle_solver ''aaaaabccc'' ''5a1b2c1c''"
proof (intro conjI)
  show "rle_solver plain ans \<longleftrightarrow>
      even (length ans)
      \<and> (\<forall>i<length ans. even i \<longrightarrow> is_digit (ans ! i))
      \<and> rle_decoded ans = plain
      \<and> length ans \<le> rle_min_length plain"
  proof (cases "even (length ans)")
    case True
    have m: "rle_min_loop plain 0 0 = rle_min_length plain"
      by (simp add: rle_min_loop_eq)
    show ?thesis
      using True rle_pairs_digits [OF True]
      by (auto simp: rle_solver_def rle_decode_loop_eq m even_iff_mod_2_eq_zero)
  next
    case False
    then show ?thesis by (simp add: rle_solver_def even_iff_mod_2_eq_zero)
  qed
next
  show "rle_solver ''aaaaabccc'' ''5a1b3c''" by code_simp
next
  show "\<not> rle_solver ''aaaaabccc'' ''5a1b2c1c''" by code_simp
qed

theorem rle_solver_spec_witness:
  "even (length ''9z8z2z'')
   \<and> is_digit (''9z8z2z'' ! 0) \<and> is_digit (''9z8z2z'' ! 2) \<and> is_digit (''9z8z2z'' ! 4)
   \<and> rle_decoded ''9z8z2z'' = ''zzzzzzzzzzzzzzzzzzz''
   \<and> length ''9z8z2z'' \<le> rle_min_length ''zzzzzzzzzzzzzzzzzzz''
   \<and> rle_solver ''zzzzzzzzzzzzzzzzzzz'' ''9z8z2z''"
proof -
  have s: "rle_solver ''zzzzzzzzzzzzzzzzzzz'' ''9z8z2z''" by code_simp
  with rle_solver_spec [of "''zzzzzzzzzzzzzzzzzzz''" "''9z8z2z''"]
  have "even (length ''9z8z2z'')"
    "\<forall>i<length ''9z8z2z''. even i \<longrightarrow> is_digit (''9z8z2z'' ! i)"
    "rle_decoded ''9z8z2z'' = ''zzzzzzzzzzzzzzzzzzz''"
    "length ''9z8z2z'' \<le> rle_min_length ''zzzzzzzzzzzzzzzzzzz''"
    by blast+
  moreover have "is_digit (''9z8z2z'' ! 0)" "is_digit (''9z8z2z'' ! 2)"
    "is_digit (''9z8z2z'' ! 4)"
    by code_simp+
  ultimately show ?thesis using s by blast
qed

section \<open>Sanitize Parentheses in Expression\<close>

text \<open>
  \<^verbatim>\<open>
  solver: (data: string, ans: string): boolean => {
    let left = 0;
    let right = 0;
    const res: string[] = [];
    for (let i = 0; i < data.length; ++i) {
      if (data[i] === "(") {
        ++left;
      } else if (data[i] === ")") {
        left > 0 ? --left : ++right;
      }
    }
    function dfs(pair, index, left, right, s, solution, res): void {
      if (s.length === index) {
        if (left === 0 && right === 0 && pair === 0) {
          for (let i = 0; i < res.length; i++) {
            if (res[i] === solution) {
              return;
            }
          }
          res.push(solution);
        }
        return;
      }
      if (s[index] === "(") {
        if (left > 0) {
          dfs(pair, index + 1, left - 1, right, s, solution, res);
        }
        dfs(pair + 1, index + 1, left, right, s, solution + s[index], res);
      } else if (s[index] === ")") {
        if (right > 0) dfs(pair, index + 1, left, right - 1, s, solution, res);
        if (pair > 0) dfs(pair - 1, index + 1, left, right, s, solution + s[index], res);
      } else {
        dfs(pair, index + 1, left, right, s, solution + s[index], res);
      }
    }
    dfs(0, 0, left, right, data, "", res);

    const sanitizedPlayerAns: string = removeBracketsFromArrayString(ans);
    const sanitizedPlayerAnsArr: string[] = sanitizedPlayerAns.split(",");
    for (let i = 0; i < sanitizedPlayerAnsArr.length; ++i) {
      sanitizedPlayerAnsArr[i] = removeQuotesFromString(sanitizedPlayerAnsArr[i].replace(/\s/g, ""));
    }
    if (sanitizedPlayerAnsArr.length !== res.length) {
      return false;
    }
    for (const resultInAnswer of res) {
      if (!sanitizedPlayerAnsArr.includes(resultInAnswer)) {
        return false;
      }
    }
    return true;
  }
  \<close>
  The counting loop and \<open>dfs\<close> walk the text from \<open>index\<close> on, here the list of the
  characters still to come; \<open>dfs\<close> returns the array \<open>res\<close> it was given, extended.
\<close>

fun count_excess :: "string \<Rightarrow> nat \<times> nat \<Rightarrow> nat \<times> nat" where
  "count_excess [] (left, right) = (left, right)"
| "count_excess (c # cs) (left, right) =
     (if c = CHR ''('' then count_excess cs (left + 1, right)
      else if c = CHR '')'' then
        (if left > 0 then count_excess cs (left - 1, right) else count_excess cs (left, right + 1))
      else count_excess cs (left, right))"

fun dfs :: "nat \<Rightarrow> nat \<Rightarrow> nat \<Rightarrow> string \<Rightarrow> string \<Rightarrow> string list \<Rightarrow> string list" where
  "dfs pair left right [] solution res =
     (if left = 0 \<and> right = 0 \<and> pair = 0
      then (if solution \<in> set res then res else res @ [solution])
      else res)"
| "dfs pair left right (c # s) solution res =
     (if c = CHR ''('' then
        dfs (pair + 1) left right s (solution @ [c])
          (if left > 0 then dfs pair (left - 1) right s solution res else res)
      else if c = CHR '')'' then
        (let res1 = (if right > 0 then dfs pair left (right - 1) s solution res else res)
         in if pair > 0 then dfs (pair - 1) left right s (solution @ [c]) res1 else res1)
      else dfs pair left right s (solution @ [c]) res)"

definition sanitize_results :: "string \<Rightarrow> string list" where
  "sanitize_results data = (case count_excess data (0, 0) of (left, right) \<Rightarrow> dfs 0 left right data [] [])"

definition sanitize_parse :: "string \<Rightarrow> string list" where
  "sanitize_parse ans =
     map (\<lambda>p. removeQuotesFromString (strip_ws p)) (split_comma (removeBracketsFromArrayString ans))"

definition sanitize_solver :: "string \<Rightarrow> string \<Rightarrow> bool" where
  "sanitize_solver data ans =
     (let res = sanitize_results data; sanitizedPlayerAnsArr = sanitize_parse ans in
      if length sanitizedPlayerAnsArr \<noteq> length res then False
      else list_all (\<lambda>resultInAnswer. resultInAnswer \<in> set sanitizedPlayerAnsArr) res)"

section \<open>Find All Valid Math Expressions\<close>

text \<open>
  \<^verbatim>\<open>
  solver: (data: [string, number], ans: string): boolean => {
    const num = data[0];
    const target = data[1];
    function helper(res, path, num, target, pos, evaluated, multed): void {
      if (pos === num.length) {
        if (target === evaluated) {
          res.push(path);
        }
        return;
      }
      for (let i = pos; i < num.length; ++i) {
        if (i != pos && num[pos] == "0") {
          break;
        }
        const cur = parseInt(num.substring(pos, i + 1));
        if (pos === 0) {
          helper(res, path + cur, num, target, i + 1, cur, cur);
        } else {
          helper(res, path + "+" + cur, num, target, i + 1, evaluated + cur, cur);
          helper(res, path + "-" + cur, num, target, i + 1, evaluated - cur, -cur);
          helper(res, path + "*" + cur, num, target, i + 1, evaluated - multed + multed * cur, multed * cur);
        }
      }
    }
    const sanitizedPlayerAns: string = removeBracketsFromArrayString(ans);
    // Don't include any "" entries in the parsed array
    const sanitizedPlayerAnsArr: string[] = filterTruthy(sanitizedPlayerAns.split(","));
    for (let i = 0; i < sanitizedPlayerAnsArr.length; ++i) {
      sanitizedPlayerAnsArr[i] = removeQuotesFromString(sanitizedPlayerAnsArr[i].replace(/\s/g, ""));
    }
    if (num == null || num.length === 0) {
      if (sanitizedPlayerAnsArr.length === 0) {
        return true;
      }
      if (sanitizedPlayerAnsArr.length === 1 && sanitizedPlayerAnsArr[0] === "") {
        return true;
      }
      return false;
    }
    const result: string[] = [];
    helper(result, "", num, target, 0, 0, 0);
    // Prevent player from providing extra wrong answers and still receiving credit
    if (result.length !== sanitizedPlayerAnsArr.length) return false;
    const resultsSet = new Set(result);
    for (const expr of sanitizedPlayerAnsArr) {
      if (!resultsSet.has(expr)) {
        return false;
      }
    }
    return true;
  }
  \<close>
  The numbers \<open>cur\<close>, \<open>evaluated\<close> and \<open>multed\<close> are integers or \<open>NaN\<close> (\<open>None\<close>, when a
  piece of \<open>num\<close> does not start with a digit); arithmetic on \<open>NaN\<close> gives \<open>NaN\<close>, and
  \<open>NaN\<close> is printed as such and equal to nothing.
\<close>

type_synonym jsnum = "int option"

definition num_add :: "jsnum \<Rightarrow> jsnum \<Rightarrow> jsnum" where
  "num_add a b = (case (a, b) of (Some x, Some y) \<Rightarrow> Some (x + y) | _ \<Rightarrow> None)"

definition num_sub :: "jsnum \<Rightarrow> jsnum \<Rightarrow> jsnum" where
  "num_sub a b = (case (a, b) of (Some x, Some y) \<Rightarrow> Some (x - y) | _ \<Rightarrow> None)"

definition num_mul :: "jsnum \<Rightarrow> jsnum \<Rightarrow> jsnum" where
  "num_mul a b = (case (a, b) of (Some x, Some y) \<Rightarrow> Some (x * y) | _ \<Rightarrow> None)"

definition num_neg :: "jsnum \<Rightarrow> jsnum" where
  "num_neg a = map_option uminus a"

definition num_text :: "jsnum \<Rightarrow> string" where
  "num_text a = (case a of None \<Rightarrow> ''NaN'' | Some x \<Rightarrow> toString x)"

text \<open>\<open>s.substring(a, b)\<close> for \<open>a \<le> b\<close>.\<close>

definition substring :: "string \<Rightarrow> nat \<Rightarrow> nat \<Rightarrow> string" where
  "substring s a b = take (b - a) (drop a s)"

function helper :: "string list \<Rightarrow> string \<Rightarrow> string \<Rightarrow> int \<Rightarrow> nat \<Rightarrow> jsnum \<Rightarrow> jsnum \<Rightarrow> string list"
  and helper_for :: "string list \<Rightarrow> string \<Rightarrow> string \<Rightarrow> int \<Rightarrow> nat \<Rightarrow> jsnum \<Rightarrow> jsnum \<Rightarrow> nat \<Rightarrow> string list"
  where
  "helper res path num target pos evaluated multed =
     (if pos = length num then (if Some target = evaluated then res @ [path] else res)
      else helper_for res path num target pos evaluated multed pos)"
| "helper_for res path num target pos evaluated multed i =
     (if i < length num then
        if i \<noteq> pos \<and> num ! pos = CHR ''0'' then res
        else
          let cur = parseInt (substring num pos (i + 1));
              res' =
                (if pos = 0 then helper res (path @ num_text cur) num target (i + 1) cur cur
                 else
                   let r1 = helper res (path @ ''+'' @ num_text cur) num target (i + 1)
                              (num_add evaluated cur) cur;
                       r2 = helper r1 (path @ ''-'' @ num_text cur) num target (i + 1)
                              (num_sub evaluated cur) (num_neg cur)
                   in helper r2 (path @ ''*'' @ num_text cur) num target (i + 1)
                        (num_add (num_sub evaluated multed) (num_mul multed cur))
                        (num_mul multed cur))
          in helper_for res' path num target pos evaluated multed (i + 1)
      else res)"
  by pat_completeness auto
termination
  by (relation "measure (\<lambda>x. case x of
         Inl (res, path, num, target, pos, evaluated, multed) \<Rightarrow> 2 * (length num - pos) + 1
       | Inr (res, path, num, target, pos, evaluated, multed, i) \<Rightarrow> 2 * (length num - i))")
     auto

text \<open>
  Modelled from the spec: \<open>filterTruthy\<close> (imported from \<open>utils/helpers/ArrayHelpers\<close>,
  which is not among the sources) keeps the truthy entries of an array. The only falsy
  string is the empty one; the solver's own comment says that no empty entries are to be
  included in the parsed array, and the specification asks that no elements canonicalize
  to an empty list.
\<close>

definition filterTruthy :: "string list \<Rightarrow> string list" where
  "filterTruthy xs = filter (\<lambda>s. s \<noteq> []) xs"

definition math_parse :: "string \<Rightarrow> string list" where
  "math_parse ans =
     map (\<lambda>p. removeQuotesFromString (strip_ws p))
       (filterTruthy (split_comma (removeBracketsFromArrayString ans)))"

definition math_results :: "string \<Rightarrow> int \<Rightarrow> string list" where
  "math_results num target = helper [] [] num target 0 (Some 0) (Some 0)"

definition math_solver :: "string \<times> int \<Rightarrow> string \<Rightarrow> bool" where
  "math_solver data ans =
     (let num = fst data; target = snd data; sanitizedPlayerAnsArr = math_parse ans in
      if length num = 0 then
        (if length sanitizedPlayerAnsArr = 0 then True
         else if length sanitizedPlayerAnsArr = 1 \<and> sanitizedPlayerAnsArr ! 0 = [] then True
         else False)
      else
        let result = math_results num target in
        if length result \<noteq> length sanitizedPlayerAnsArr then False
        else list_all (\<lambda>expr. expr \<in> set result) sanitizedPlayerAnsArr)"

subsection \<open>Answers without elements\<close>

lemma removeBrackets_empty:
  "ans = [] \<or> ans = ''[]'' \<Longrightarrow> removeBracketsFromArrayString ans = []"
  by (auto simp: removeBracketsFromArrayString_def)

lemma singleton_all_empty:
  "length res = Suc 0 \<and> list_all (\<lambda>r. r = []) res \<longleftrightarrow> res = [[]]"
  by (cases res) auto

text \<open>
  Claim C7, as the code has it. An answer without elements (the empty string, or one
  pair of brackets around it) is parsed to the empty list by Find All Valid Math
  Expressions, which drops empty entries, and is accepted there exactly when the digit
  string is empty or the reference result has no expression. Sanitize Parentheses in
  Expression keeps the pieces as split: the same answer is parsed to the one-element
  list holding the empty string, and is accepted exactly when the reference result is
  that list.
\<close>

theorem empty_answer_lists:
  assumes "ans = [] \<or> ans = ''[]''"
  shows "math_parse ans = []
    \<and> (math_solver (num, target) ans \<longleftrightarrow> num = [] \<or> math_results num target = [])
    \<and> sanitize_parse ans = [[]]
    \<and> (sanitize_solver data ans \<longleftrightarrow> sanitize_results data = [[]])"
proof (intro conjI)
  have rb: "removeBracketsFromArrayString ans = []"
    using assms by (rule removeBrackets_empty)
  show mp: "math_parse ans = []"
    by (simp add: math_parse_def rb filterTruthy_def)
  show "math_solver (num, target) ans \<longleftrightarrow> num = [] \<or> math_results num target = []"
    by (auto simp: math_solver_def mp Let_def)
  show sp: "sanitize_parse ans = [[]]"
    by (simp add: sanitize_parse_def rb strip_ws_def removeQuotesFromString_def)
  show "sanitize_solver data ans \<longleftrightarrow> sanitize_results data = [[]]"
    using singleton_all_empty [of "sanitize_results data"]
    by (auto simp: sanitize_solver_def sp Let_def)
qed

theorem empty_answer_lists_witness:
  "math_parse ''[]'' = []
   \<and> math_solver (''12'', 100) ''[]'' \<and> \<not> math_solver (''12'', 3) ''[]''
   \<and> sanitize_parse ''[]'' = [[]]
   \<and> sanitize_solver '')('' ''[]'' \<and> \<not> sanitize_solver ''()())()'' ''[]''"
proof -
  have m: "math_results ''12'' 100 = []" "math_results ''12'' 3 \<noteq> []" "''12'' \<noteq> []"
    by code_simp+
  have s: "sanitize_results '')('' = [[]]" "sanitize_results ''()())()'' \<noteq> [[]]"
    by code_simp+
  have a: "''[]'' = [] \<or> ''[]'' = ''[]''" by simp
  from empty_answer_lists [OF a, of "''12''" 100 "'')(''"]
    empty_answer_lists [OF a, of "''12''" 3 "''()())()''"] m s
  show ?thesis by simp
qed

text \<open>
  The claim as stated fails for Sanitize Parentheses in Expression: the empty answer,
  bare or in brackets, becomes a list of one element, and for the text \<open>)))(((\<close>, whose
  reference result is the non-empty list holding the empty string, both are accepted.
\<close>

theorem sanitize_empty_answer_counterexample:
  "sanitize_parse [] = [[]] \<and> sanitize_parse ''[]'' = [[]]
   \<and> sanitize_results '')))((('' = [[]]
   \<and> sanitize_solver '')))((('' [] \<and> sanitize_solver '')))((('' ''[]''"
  by code_simp

section \<open>Proper 2-Coloring of a Graph\<close>

text \<open>
  \<^verbatim>\<open>
  solver: (data: [number, [number, number][]], ans: string): boolean => {
    function neighbourhood(vertex: number): number[] {
      const adjLeft = data[1].filter(([a]) => a == vertex).map(([, b]) => b);
      const adjRight = data[1].filter(([, b]) => b == vertex).map(([a]) => a);
      return adjLeft.concat(adjRight);
    }
    const sanitizedPlayerAns = removeBracketsFromArrayString(ans);
    if (sanitizedPlayerAns === "") {
      const coloring: (number | undefined)[] = Array(data[0]).fill(undefined);
      while (coloring.some((val) => val === undefined)) {
        const initialVertex: number = coloring.findIndex((val) => val === undefined);
        coloring[initialVertex] = 0;
        const frontier: number[] = [initialVertex];
        while (frontier.length > 0) {
          const v: number = frontier.pop() || 0;
          const neighbors: number[] = neighbourhood(v);
          for (const id in neighbors) {
            const u: number = neighbors[id];
            if (coloring[u] === undefined) {
              if (coloring[v] === 0) coloring[u] = 1;
              else coloring[u] = 0;
              frontier.push(u);
            }
            else if (coloring[u] === coloring[v]) {
              return true;
            }
          }
        }
      }
      return false;
    }
    const sanitizedPlayerAnsArr: string[] = sanitizedPlayerAns.split(",");
    const coloring: number[] = sanitizedPlayerAnsArr.map((val) => parseInt(val));
    if (coloring.length == data[0]) {
      const edges = data[1];
      const validColors = [0, 1];
      return edges.every(([a, b]) => {
        const aColor = coloring[a];
        const bColor = coloring[b];
        return (
          validColors.includes(aColor) &&
          validColors.includes(bColor) &&
          aColor != bColor
        );
      });
    }
    else return false;
  }
  \<close>
  Vertices are natural numbers. The array \<open>coloring\<close> of the first branch is a map from
  vertices to colours, \<open>None\<close> where the array holds \<open>undefined\<close> or has no entry; the
  scans \<open>some\<close> and \<open>findIndex\<close> look at the first \<open>data[0]\<close> positions. The stack
  \<open>frontier\<close> is a list whose last element is popped.
\<close>

type_synonym graph = "nat \<times> (nat \<times> nat) list"

definition neighbourhood :: "(nat \<times> nat) list \<Rightarrow> nat \<Rightarrow> nat list" where
  "neighbourhood edges vertex =
     map snd (filter (\<lambda>(a, b). a = vertex) edges) @ map fst (filter (\<lambda>(a, b). b = vertex) edges)"

text \<open>The \<open>for\<close> loop over the neighbours of \<open>v\<close>; the flag is \<open>True\<close> where the solver
  returns \<open>true\<close> from inside the loop.\<close>

fun visit_neighbors ::
  "nat \<Rightarrow> nat list \<Rightarrow> (nat \<Rightarrow> nat option) \<times> nat list \<Rightarrow> bool \<times> (nat \<Rightarrow> nat option) \<times> nat list" where
  "visit_neighbors v [] (coloring, frontier) = (False, coloring, frontier)"
| "visit_neighbors v (u # us) (coloring, frontier) =
     (if coloring u = None then
        visit_neighbors v us
          (coloring(u \<mapsto> (if coloring v = Some 0 then 1 else 0)), frontier @ [u])
      else if coloring u = coloring v then (True, coloring, frontier)
      else visit_neighbors v us (coloring, frontier))"

text \<open>The vertices without a colour among those that occur in an edge.\<close>

definition uncolored :: "(nat \<times> nat) list \<Rightarrow> (nat \<Rightarrow> nat option) \<Rightarrow> nat set" where
  "uncolored edges coloring = {u \<in> fst ` set edges \<union> snd ` set edges. coloring u = None}"

lemma finite_uncolored: "finite (uncolored edges coloring)"
  by (simp add: uncolored_def)

lemma neighbourhood_vertices:
  "u \<in> set (neighbourhood edges v) \<Longrightarrow> u \<in> fst ` set edges \<union> snd ` set edges"
  by (force simp: neighbourhood_def)

lemma uncolored_update:
  assumes "coloring u = None" "u \<in> fst ` set edges \<union> snd ` set edges"
  shows "card (uncolored edges (coloring(u \<mapsto> c))) < card (uncolored edges coloring)"
proof -
  have "uncolored edges (coloring(u \<mapsto> c)) = uncolored edges coloring - {u}"
    by (auto simp: uncolored_def)
  moreover have "u \<in> uncolored edges coloring"
    using assms by (simp add: uncolored_def)
  ultimately show ?thesis
    using card_Diff1_less [OF finite_uncolored, of u edges coloring] by simp
qed

lemma visit_neighbors_measure:
  assumes "set us \<subseteq> fst ` set edges \<union> snd ` set edges"
    and "visit_neighbors v us (coloring, frontier) = (conflict, coloring', frontier')"
  shows "2 * card (uncolored edges coloring') + length frontier'
           \<le> 2 * card (uncolored edges coloring) + length frontier"
  using assms
proof (induction us arbitrary: coloring frontier)
  case Nil
  then show ?case by simp
next
  case (Cons u us)
  show ?case
  proof (cases "coloring u = None")
    case True
    define c where "c = coloring(u \<mapsto> (if coloring v = Some 0 then 1 else 0))"
    from Cons.prems True
    have "visit_neighbors v us (c, frontier @ [u]) = (conflict, coloring', frontier')"
      by (simp add: c_def)
    moreover have "set us \<subseteq> fst ` set edges \<union> snd ` set edges"
      using Cons.prems(1) by simp
    ultimately have "2 * card (uncolored edges coloring') + length frontier'
            \<le> 2 * card (uncolored edges c) + length (frontier @ [u])"
      by (rule Cons.IH [rotated])
    moreover have "card (uncolored edges c) < card (uncolored edges coloring)"
      unfolding c_def using True Cons.prems(1) by (intro uncolored_update) simp_all
    ultimately show ?thesis by simp
  next
    case False
    with Cons show ?thesis by (auto split: if_splits)
  qed
qed

text \<open>The inner \<open>while\<close> loop, for one component.\<close>

function propagate ::
  "(nat \<times> nat) list \<Rightarrow> (nat \<Rightarrow> nat option) \<times> nat list \<Rightarrow> bool \<times> (nat \<Rightarrow> nat option)" where
  "propagate edges (coloring, frontier) =
     (if frontier = [] then (False, coloring)
      else
        let v = last frontier;
            r = visit_neighbors v (neighbourhood edges v) (coloring, butlast frontier)
        in if fst r then (True, fst (snd r)) else propagate edges (snd r))"
  by pat_completeness auto
termination
proof (relation "measure (\<lambda>(edges, coloring, frontier).
                   2 * card (uncolored edges coloring) + length frontier)")
  fix edges :: "(nat \<times> nat) list" and coloring :: "nat \<Rightarrow> nat option" and frontier :: "nat list"
    and v r
  assume ne: "frontier \<noteq> []" and v: "v = last frontier"
    and r: "r = visit_neighbors v (neighbourhood edges v) (coloring, butlast frontier)"
  obtain conflict coloring' frontier' where res: "r = (conflict, coloring', frontier')"
    by (cases r)
  have sub: "set (neighbourhood edges v) \<subseteq> fst ` set edges \<union> snd ` set edges"
    using neighbourhood_vertices [of _ edges v] by blast
  have "visit_neighbors v (neighbourhood edges v) (coloring, butlast frontier)
          = (conflict, coloring', frontier')"
    using r res by simp
  from visit_neighbors_measure [OF sub this]
  have "2 * card (uncolored edges coloring') + length frontier'
          \<le> 2 * card (uncolored edges coloring) + length (butlast frontier)" .
  with ne show "((edges, snd r), (edges, coloring, frontier))
                  \<in> measure (\<lambda>(edges, coloring, frontier).
                      2 * card (uncolored edges coloring) + length frontier)"
    by (cases frontier rule: rev_cases) (simp_all add: res)
qed simp

declare propagate.simps [simp del]

lemma visit_neighbors_extends:
  "visit_neighbors v us (coloring, frontier) = (conflict, coloring', frontier') \<Longrightarrow>
   coloring x \<noteq> None \<Longrightarrow> coloring' x = coloring x"
proof (induction us arbitrary: coloring frontier)
  case Nil
  then show ?case by simp
next
  case (Cons u us)
  show ?case
  proof (cases "coloring u = None")
    case True
    define c where "c = coloring(u \<mapsto> (if coloring v = Some 0 then 1 else 0))"
    from Cons.prems True
    have "visit_neighbors v us (c, frontier @ [u]) = (conflict, coloring', frontier')"
      by (simp add: c_def)
    moreover have "c x \<noteq> None" "c x = coloring x"
      using Cons.prems(2) True by (auto simp: c_def)
    ultimately show ?thesis using Cons.IH by metis
  next
    case False
    with Cons show ?thesis by (auto split: if_splits)
  qed
qed

lemma propagate_extends:
  "propagate edges (coloring, frontier) = (conflict, coloring') \<Longrightarrow>
   coloring x \<noteq> None \<Longrightarrow> coloring' x = coloring x"
proof (induction edges "(coloring, frontier)" arbitrary: coloring frontier rule: propagate.induct)
  case (1 edges coloring frontier)
  show ?case
  proof (cases "frontier = []")
    case True
    with "1.prems" show ?thesis by (simp add: propagate.simps)
  next
    case False
    define v where "v = last frontier"
    obtain b c1 f1 where r: "visit_neighbors v (neighbourhood edges v) (coloring, butlast frontier) = (b, c1, f1)"
      by (cases "visit_neighbors v (neighbourhood edges v) (coloring, butlast frontier)")
    have c1: "c1 x = coloring x" "c1 x \<noteq> None"
      using visit_neighbors_extends [OF r "1.prems"(2)] "1.prems"(2) by simp_all
    show ?thesis
    proof (cases b)
      case True
      with False r "1.prems"(1) c1 show ?thesis
        by (simp add: propagate.simps [of edges coloring frontier] v_def Let_def)
    next
      case nb: False
      from False r nb "1.prems"(1) have "propagate edges (c1, f1) = (conflict, coloring')"
        by (simp add: propagate.simps [of edges coloring frontier] v_def Let_def)
      from "1.hyps" [OF False v_def refl _ _ this c1(2)] r nb c1 show ?thesis
        by simp
    qed
  qed
qed

text \<open>The outer \<open>while\<close> loop: colour the first vertex without a colour with \<open>0\<close> and
  propagate from it, until every vertex has a colour or a conflict shows.\<close>

function color_components ::
  "nat \<Rightarrow> (nat \<times> nat) list \<Rightarrow> (nat \<Rightarrow> nat option) \<Rightarrow> bool \<times> (nat \<Rightarrow> nat option)" where
  "color_components n edges coloring =
     (case find (\<lambda>i. coloring i = None) [0..<n] of
        None \<Rightarrow> (False, coloring)
      | Some initialVertex \<Rightarrow>
          let r = propagate edges (coloring(initialVertex \<mapsto> 0), [initialVertex])
          in if fst r then (True, snd r) else color_components n edges (snd r))"
  by pat_completeness auto
termination
proof (relation "measure (\<lambda>(n, edges, coloring). card {i. i < n \<and> coloring i = None})")
  fix n :: nat and edges :: "(nat \<times> nat) list" and coloring :: "nat \<Rightarrow> nat option"
    and initialVertex r
  assume f: "find (\<lambda>i. coloring i = None) [0..<n] = Some initialVertex"
    and r: "r = propagate edges (coloring(initialVertex \<mapsto> 0), [initialVertex])"
  from f have v: "initialVertex < n" "coloring initialVertex = None"
    by (auto simp: find_Some_iff)
  obtain b c' where res: "propagate edges (coloring(initialVertex \<mapsto> 0), [initialVertex]) = (b, c')"
    by (cases "propagate edges (coloring(initialVertex \<mapsto> 0), [initialVertex])")
  have ext: "c' x \<noteq> None" if "(coloring(initialVertex \<mapsto> 0)) x \<noteq> None" for x
    using propagate_extends [OF res that] that by simp
  have e1: "c' initialVertex \<noteq> None"
    by (rule ext) simp
  have e2: "c' x \<noteq> None" if "coloring x \<noteq> None" for x
    using that by (intro ext) simp
  have "{i. i < n \<and> c' i = None} \<subseteq> {i. i < n \<and> coloring i = None} - {initialVertex}"
    using e1 e2 by blast
  moreover have "{i. i < n \<and> coloring i = None} - {initialVertex} \<subset> {i. i < n \<and> coloring i = None}"
    using v by auto
  ultimately have "{i. i < n \<and> c' i = None} \<subset> {i. i < n \<and> coloring i = None}"
    by blast
  then have "card {i. i < n \<and> c' i = None} < card {i. i < n \<and> coloring i = None}"
    by (intro psubset_card_mono) simp_all
  then show "((n, edges, snd r), (n, edges, coloring))
               \<in> measure (\<lambda>(n, edges, coloring). card {i. i < n \<and> coloring i = None})"
    by (simp add: r res)
qed simp

declare color_components.simps [simp del]

text \<open>The entries of a submitted colouring: a parsed number, \<open>NaN\<close>, or \<open>undefined\<close> past
  the end of the array; \<open>includes\<close> and \<open>!=\<close> as they act on these.\<close>

datatype jsvalue = Number int | NaN | Undefined

definition coloring_at :: "int option list \<Rightarrow> nat \<Rightarrow> jsvalue" where
  "coloring_at coloring a =
     (if a < length coloring
      then (case coloring ! a of None \<Rightarrow> NaN | Some c \<Rightarrow> Number c)
      else Undefined)"

definition validColors_includes :: "jsvalue \<Rightarrow> bool" where
  "validColors_includes x \<longleftrightarrow> x = Number 0 \<or> x = Number 1"

fun loose_neq :: "jsvalue \<Rightarrow> jsvalue \<Rightarrow> bool" where
  "loose_neq (Number x) (Number y) = (x \<noteq> y)"
| "loose_neq Undefined Undefined = False"
| "loose_neq _ _ = True"

definition parse_coloring :: "string \<Rightarrow> int option list" where
  "parse_coloring sanitizedPlayerAns = map parseInt (split_comma sanitizedPlayerAns)"

definition check_coloring :: "(nat \<times> nat) list \<Rightarrow> int option list \<Rightarrow> bool" where
  "check_coloring edges coloring =
     list_all (\<lambda>(a, b).
         let aColor = coloring_at coloring a; bColor = coloring_at coloring b
         in validColors_includes aColor \<and> validColors_includes bColor \<and> loose_neq aColor bColor)
       edges"

definition greedy_coloring :: "graph \<Rightarrow> bool \<times> (nat \<Rightarrow> nat option)" where
  "greedy_coloring data = color_components (fst data) (snd data) (\<lambda>_. None)"

definition coloring_solver :: "graph \<Rightarrow> string \<Rightarrow> bool" where
  "coloring_solver data ans =
     (let sanitizedPlayerAns = removeBracketsFromArrayString ans in
      if sanitizedPlayerAns = [] then fst (greedy_coloring data)
      else
        let coloring = parse_coloring sanitizedPlayerAns in
        if length coloring = fst data then check_coloring (snd data) coloring else False)"

subsection \<open>What the propagation leaves behind\<close>

text \<open>A vertex is closed when each of its neighbours has a colour, different from its own.\<close>

definition closed :: "(nat \<times> nat) list \<Rightarrow> (nat \<Rightarrow> nat option) \<Rightarrow> nat \<Rightarrow> bool" where
  "closed edges c x \<longleftrightarrow> (\<forall>u \<in> set (neighbourhood edges x). c u \<noteq> None \<and> c u \<noteq> c x)"

definition frontier_inv :: "(nat \<times> nat) list \<Rightarrow> (nat \<Rightarrow> nat option) \<Rightarrow> nat list \<Rightarrow> bool" where
  "frontier_inv edges c f \<longleftrightarrow> (\<forall>x. c x \<noteq> None \<and> x \<notin> set f \<longrightarrow> closed edges c x)"

definition same_color_edge :: "(nat \<times> nat) list \<Rightarrow> (nat \<Rightarrow> nat option) \<Rightarrow> bool" where
  "same_color_edge edges c \<longleftrightarrow> (\<exists>(a, b) \<in> set edges. c a \<noteq> None \<and> c a = c b)"

lemma neighbourhood_iff:
  "u \<in> set (neighbourhood edges v) \<longleftrightarrow> (v, u) \<in> set edges \<or> (u, v) \<in> set edges"
  by (force simp: neighbourhood_def)

lemma neighbourhood_sym:
  "u \<in> set (neighbourhood edges v) \<longleftrightarrow> v \<in> set (neighbourhood edges u)"
  by (auto simp: neighbourhood_iff)

lemma visit_neighbors_conflict:
  "visit_neighbors v us (c, f) = (True, c', f') \<Longrightarrow> \<exists>u \<in> set us. c' u \<noteq> None \<and> c' u = c' v"
proof (induction us arbitrary: c f)
  case Nil
  then show ?case by simp
next
  case (Cons u us)
  show ?case
  proof (cases "c u = None")
    case True
    with Cons.prems
    have "visit_neighbors v us (c(u \<mapsto> (if c v = Some 0 then 1 else 0)), f @ [u]) = (True, c', f')"
      by simp
    from Cons.IH [OF this] show ?thesis by auto
  next
    case False
    show ?thesis
    proof (cases "c u = c v")
      case True
      with False Cons.prems show ?thesis by auto
    next
      case ne: False
      with False Cons.prems have "visit_neighbors v us (c, f) = (True, c', f')" by auto
      from Cons.IH [OF this] show ?thesis by auto
    qed
  qed
qed

lemma visit_neighbors_done:
  assumes "visit_neighbors v us (c, f) = (False, c', f')" and "c v \<noteq> None"
  shows "(\<forall>u \<in> set us. c' u \<noteq> None \<and> c' u \<noteq> c' v)
       \<and> set f \<subseteq> set f'
       \<and> (\<forall>x \<in> set f'. x \<in> set f \<or> c' x \<noteq> None)
       \<and> (\<forall>x. c' x \<noteq> None \<longrightarrow> c x \<noteq> None \<or> x \<in> set f')"
  using assms
proof (induction us arbitrary: c f)
  case Nil
  then show ?case by simp
next
  case (Cons u us)
  show ?case
  proof (cases "c u = None")
    case True
    define col :: nat where "col = (if c v = Some 0 then 1 else 0)"
    define c1 where "c1 = c(u \<mapsto> col)"
    have uv: "u \<noteq> v" using True Cons.prems(2) by auto
    have col: "Some col \<noteq> c v" by (auto simp: col_def)
    from Cons.prems True have r: "visit_neighbors v us (c1, f @ [u]) = (False, c', f')"
      by (simp add: c1_def col_def)
    have c1v: "c1 v \<noteq> None" "c1 v = c v" using Cons.prems(2) uv by (simp_all add: c1_def)
    from Cons.IH [OF r c1v(1)]
    have ih: "\<forall>u \<in> set us. c' u \<noteq> None \<and> c' u \<noteq> c' v" "set (f @ [u]) \<subseteq> set f'"
      "\<forall>x \<in> set f'. x \<in> set (f @ [u]) \<or> c' x \<noteq> None"
      "\<forall>x. c' x \<noteq> None \<longrightarrow> c1 x \<noteq> None \<or> x \<in> set f'"
      by blast+
    have keep: "c' x = c1 x" if "c1 x \<noteq> None" for x
      using visit_neighbors_extends [OF r that] .
    have cu: "c' u = Some col" using keep [of u] by (simp add: c1_def)
    have cv: "c' v = c v" using keep [of v] c1v by simp
    have 1: "\<forall>w \<in> set (u # us). c' w \<noteq> None \<and> c' w \<noteq> c' v"
      using ih(1) cu cv col by auto
    have 2: "set f \<subseteq> set f'" using ih(2) by auto
    have 3: "\<forall>x \<in> set f'. x \<in> set f \<or> c' x \<noteq> None"
      using ih(3) cu by auto
    have 4: "\<forall>x. c' x \<noteq> None \<longrightarrow> c x \<noteq> None \<or> x \<in> set f'"
    proof (intro allI impI)
      fix x assume "c' x \<noteq> None"
      with ih(4) have "c1 x \<noteq> None \<or> x \<in> set f'" by blast
      then show "c x \<noteq> None \<or> x \<in> set f'"
        using ih(2) by (cases "x = u") (auto simp: c1_def)
    qed
    from 1 2 3 4 show ?thesis by blast
  next
    case False
    with Cons.prems have ne: "c u \<noteq> c v" and r: "visit_neighbors v us (c, f) = (False, c', f')"
      by (auto split: if_splits)
    have keep: "c' x = c x" if "c x \<noteq> None" for x
      using visit_neighbors_extends [OF r that] .
    from Cons.IH [OF r Cons.prems(2)] keep [OF False] keep [OF Cons.prems(2)] False ne
    show ?thesis by auto
  qed
qed

lemma closed_extends:
  assumes "closed edges c x" and "c x \<noteq> None" and "\<And>y. c y \<noteq> None \<Longrightarrow> c' y = c y"
  shows "closed edges c' x"
  using assms unfolding closed_def by metis

lemma propagate_result:
  assumes "frontier_inv edges c f" and "\<forall>x \<in> set f. c x \<noteq> None"
    and "propagate edges (c, f) = (b, c')"
  shows "if b then same_color_edge edges c' else frontier_inv edges c' []"
  using assms
proof (induction edges "(c, f)" arbitrary: c f rule: propagate.induct)
  case (1 edges c f)
  show ?case
  proof (cases "f = []")
    case True
    with "1.prems" show ?thesis by (simp add: propagate.simps)
  next
    case False
    define v where "v = last f"
    have vf: "v \<in> set f" using False by (simp add: v_def)
    then have cv: "c v \<noteq> None" using "1.prems"(2) by blast
    obtain b1 c1 f1 where r: "visit_neighbors v (neighbourhood edges v) (c, butlast f) = (b1, c1, f1)"
      by (cases "visit_neighbors v (neighbourhood edges v) (c, butlast f)")
    show ?thesis
    proof (cases b1)
      case True
      with False r "1.prems"(3) have res: "b = True" "c' = c1"
        by (simp_all add: propagate.simps [of edges c f] v_def Let_def)
      from r True have "visit_neighbors v (neighbourhood edges v) (c, butlast f) = (True, c1, f1)"
        by simp
      from visit_neighbors_conflict [OF this]
      obtain u where "u \<in> set (neighbourhood edges v)" "c1 u \<noteq> None" "c1 u = c1 v" by blast
      then have "((v, u) \<in> set edges \<or> (u, v) \<in> set edges) \<and> c1 v \<noteq> None \<and> c1 v = c1 u"
        by (simp add: neighbourhood_iff)
      then have "same_color_edge edges c1"
        unfolding same_color_edge_def by (metis (mono_tags, lifting) case_prodI)
      with res show ?thesis by simp
    next
      case nb: False
      from False r nb "1.prems"(3) have next_call: "propagate edges (c1, f1) = (b, c')"
        by (simp add: propagate.simps [of edges c f] v_def Let_def)
      have keep: "c1 y = c y" if "c y \<noteq> None" for y
        using visit_neighbors_extends [OF r that] .
      from r nb have "visit_neighbors v (neighbourhood edges v) (c, butlast f) = (False, c1, f1)"
        by simp
      from visit_neighbors_done [OF this cv]
      have d: "\<forall>u \<in> set (neighbourhood edges v). c1 u \<noteq> None \<and> c1 u \<noteq> c1 v"
        "set (butlast f) \<subseteq> set f1"
        "\<forall>x \<in> set f1. x \<in> set (butlast f) \<or> c1 x \<noteq> None"
        "\<forall>x. c1 x \<noteq> None \<longrightarrow> c x \<noteq> None \<or> x \<in> set f1"
        by blast+
      have col: "\<forall>x \<in> set f1. c1 x \<noteq> None"
      proof
        fix x assume "x \<in> set f1"
        with d(3) have "x \<in> set (butlast f) \<or> c1 x \<noteq> None" by blast
        then show "c1 x \<noteq> None"
          using "1.prems"(2) keep [of x] in_set_butlastD [of x f] by auto
      qed
      have inv: "frontier_inv edges c1 f1"
        unfolding frontier_inv_def
      proof (intro allI impI)
        fix x assume x: "c1 x \<noteq> None \<and> x \<notin> set f1"
        with d(4) have cx: "c x \<noteq> None" by blast
        from x d(2) have nb': "x \<notin> set (butlast f)" by blast
        show "closed edges c1 x"
        proof (cases "x \<in> set f")
          case True
          with nb' False have "x = v"
            unfolding v_def by (cases f rule: rev_cases) auto
          with d(1) show ?thesis by (simp add: closed_def)
        next
          case nf: False
          with cx "1.prems"(1) have "closed edges c x" by (simp add: frontier_inv_def)
          then show ?thesis using cx keep by (rule closed_extends)
        qed
      qed
      from "1.hyps" [OF False v_def refl _ _ inv col next_call] r nb
      show ?thesis by simp
    qed
  qed
qed

lemma frontier_inv_start:
  assumes "frontier_inv edges c []" and "c v0 = None"
  shows "frontier_inv edges (c(v0 \<mapsto> col)) [v0]"
  unfolding frontier_inv_def
proof (intro allI impI)
  fix x assume "(c(v0 \<mapsto> col)) x \<noteq> None \<and> x \<notin> set [v0]"
  then have x: "c x \<noteq> None" by (auto split: if_splits)
  with assms(1) have "closed edges c x" by (simp add: frontier_inv_def)
  then show "closed edges (c(v0 \<mapsto> col)) x"
    using x
  proof (rule closed_extends)
    fix y assume "c y \<noteq> None"
    with assms(2) show "(c(v0 \<mapsto> col)) y = c y" by auto
  qed
qed

lemma color_components_result:
  assumes "frontier_inv edges c []" and "color_components n edges c = (b, c')"
  shows "if b then same_color_edge edges c' else frontier_inv edges c' [] \<and> (\<forall>i<n. c' i \<noteq> None)"
  using assms
proof (induction n edges c rule: color_components.induct)
  case (1 n edges c)
  show ?case
  proof (cases "find (\<lambda>i. c i = None) [0..<n]")
    case None
    then have "\<forall>i<n. c i \<noteq> None" by (auto simp: find_None_iff)
    with None "1.prems" show ?thesis
      by (simp add: color_components.simps [of n edges c])
  next
    case (Some v0)
    then have v0: "c v0 = None" by (auto simp: find_Some_iff)
    obtain b1 c1 where r: "propagate edges (c(v0 \<mapsto> 0), [v0]) = (b1, c1)"
      by (cases "propagate edges (c(v0 \<mapsto> 0), [v0])")
    have inv0: "frontier_inv edges (c(v0 \<mapsto> 0)) [v0]"
      using "1.prems"(1) v0 by (rule frontier_inv_start)
    have "\<forall>x \<in> set [v0]. (c(v0 \<mapsto> 0)) x \<noteq> None" by simp
    from propagate_result [OF inv0 this r]
    have pr: "if b1 then same_color_edge edges c1 else frontier_inv edges c1 []" .
    show ?thesis
    proof (cases b1)
      case True
      with Some r "1.prems"(2) pr show ?thesis
        by (simp add: color_components.simps [of n edges c] Let_def)
    next
      case False
      with Some r "1.prems"(2) have "color_components n edges c1 = (b, c')"
        by (simp add: color_components.simps [of n edges c] Let_def)
      moreover from pr False have "frontier_inv edges c1 []" by simp
      ultimately show ?thesis
        using "1.IH" [OF Some refl _ ] r False by simp
    qed
  qed
qed

lemma closed_no_same_color:
  assumes "frontier_inv edges c []"
  shows "\<not> same_color_edge edges c"
proof
  assume "same_color_edge edges c"
  then obtain a b where e: "(a, b) \<in> set edges" "c a \<noteq> None" "c a = c b"
    unfolding same_color_edge_def by blast
  from assms e(2) have "closed edges c a" by (simp add: frontier_inv_def)
  moreover have "b \<in> set (neighbourhood edges a)" using e(1) by (simp add: neighbourhood_iff)
  ultimately show False using e(3) by (auto simp: closed_def)
qed

lemma greedy_coloring_conflict:
  "fst (greedy_coloring (n, edges)) \<longleftrightarrow> same_color_edge edges (snd (greedy_coloring (n, edges)))"
proof -
  obtain b c' where r: "color_components n edges (\<lambda>_. None) = (b, c')"
    by (cases "color_components n edges (\<lambda>_. None)")
  have "frontier_inv edges (\<lambda>_. None) []" by (simp add: frontier_inv_def)
  from color_components_result [OF this r] closed_no_same_color [of edges c']
  have "b \<longleftrightarrow> same_color_edge edges c'" by (cases b) auto
  then show ?thesis by (simp add: greedy_coloring_def r)
qed

subsection \<open>The propagation decides whether a proper 2-colouring exists\<close>

definition binary :: "(nat \<Rightarrow> nat option) \<Rightarrow> bool" where
  "binary c \<longleftrightarrow> (\<forall>x. c x = None \<or> c x = Some 0 \<or> c x = Some 1)"

lemma visit_neighbors_binary:
  "visit_neighbors v us (c, f) = (b, c', f') \<Longrightarrow> binary c \<Longrightarrow> binary c'"
proof (induction us arbitrary: c f)
  case Nil
  then show ?case by simp
next
  case (Cons u us)
  show ?case
  proof (cases "c u = None")
    case True
    define c1 where "c1 = c(u \<mapsto> (if c v = Some 0 then 1 else 0))"
    from Cons.prems True have "visit_neighbors v us (c1, f @ [u]) = (b, c', f')"
      by (simp add: c1_def)
    moreover have "binary c1" using Cons.prems(2) by (auto simp: binary_def c1_def)
    ultimately show ?thesis by (rule Cons.IH)
  next
    case False
    with Cons show ?thesis by (auto split: if_splits)
  qed
qed

lemma propagate_binary:
  "propagate edges (c, f) = (b, c') \<Longrightarrow> binary c \<Longrightarrow> binary c'"
proof (induction edges "(c, f)" arbitrary: c f rule: propagate.induct)
  case (1 edges c f)
  show ?case
  proof (cases "f = []")
    case True
    with "1.prems" show ?thesis by (simp add: propagate.simps)
  next
    case False
    define v where "v = last f"
    obtain b1 c1 f1 where r: "visit_neighbors v (neighbourhood edges v) (c, butlast f) = (b1, c1, f1)"
      by (cases "visit_neighbors v (neighbourhood edges v) (c, butlast f)")
    have b1: "binary c1" using r "1.prems"(2) by (rule visit_neighbors_binary)
    show ?thesis
    proof (cases b1)
      case True
      with False r "1.prems"(1) b1 show ?thesis
        by (simp add: propagate.simps [of edges c f] v_def Let_def)
    next
      case nb: False
      from False r nb "1.prems"(1) have "propagate edges (c1, f1) = (b, c')"
        by (simp add: propagate.simps [of edges c f] v_def Let_def)
      from "1.hyps" [OF False v_def refl _ _ this b1] r nb show ?thesis by simp
    qed
  qed
qed

lemma color_components_binary:
  "color_components n edges c = (b, c') \<Longrightarrow> binary c \<Longrightarrow> binary c'"
proof (induction n edges c rule: color_components.induct)
  case (1 n edges c)
  show ?case
  proof (cases "find (\<lambda>i. c i = None) [0..<n]")
    case None
    with "1.prems" show ?thesis
      by (simp add: color_components.simps [of n edges c])
  next
    case (Some v0)
    obtain b1 c1 where r: "propagate edges (c(v0 \<mapsto> 0), [v0]) = (b1, c1)"
      by (cases "propagate edges (c(v0 \<mapsto> 0), [v0])")
    have "binary (c(v0 \<mapsto> 0))" using "1.prems"(2) by (auto simp: binary_def)
    with r have b1: "binary c1" by (rule propagate_binary)
    show ?thesis
    proof (cases b1)
      case True
      with Some r "1.prems"(1) b1 show ?thesis
        by (simp add: color_components.simps [of n edges c] Let_def)
    next
      case False
      with Some r "1.prems"(1) have "color_components n edges c1 = (b, c')"
        by (simp add: color_components.simps [of n edges c] Let_def)
      with "1.IH" [OF Some refl _ ] r False b1 show ?thesis by simp
    qed
  qed
qed

text \<open>A proper 2-colouring of the edges, as a predicate on vertices.\<close>

definition proper :: "(nat \<times> nat) list \<Rightarrow> (nat \<Rightarrow> bool) \<Rightarrow> bool" where
  "proper edges k \<longleftrightarrow> (\<forall>(a, b) \<in> set edges. k a \<noteq> k b)"

text \<open>Against a proper colouring \<open>k\<close>, the coloured vertices that are not closed yet all
  agree with \<open>k\<close>, or all disagree.\<close>

definition agree :: "(nat \<times> nat) list \<Rightarrow> (nat \<Rightarrow> bool) \<Rightarrow> (nat \<Rightarrow> nat option) \<Rightarrow> bool" where
  "agree edges k c \<longleftrightarrow>
     (\<forall>x y. c x \<noteq> None \<and> \<not> closed edges c x \<and> c y \<noteq> None \<and> \<not> closed edges c y
        \<longrightarrow> ((c x = Some 1) = k x) = ((c y = Some 1) = k y))"

lemma proper_neighbour: "proper edges k \<Longrightarrow> u \<in> set (neighbourhood edges v) \<Longrightarrow> k u \<noteq> k v"
  by (auto simp: proper_def neighbourhood_iff)

lemma agree_color:
  assumes pr: "proper edges k" and bin: "binary c" and ag: "agree edges k c"
    and cv: "c v \<noteq> None" and u: "u \<in> set (neighbourhood edges v)" and cu: "c u = None"
  shows "agree edges k (c(u \<mapsto> (if c v = Some 0 then 1 else 0)))"
proof -
  define col :: nat where "col = (if c v = Some 0 then 1 else 0)"
  define c1 where "c1 = c(u \<mapsto> col)"
  have uv: "u \<noteq> v" using cu cv by auto
  have ext: "c1 y = c y" if "c y \<noteq> None" for y using that cu by (auto simp: c1_def)
  have vopen: "\<not> closed edges c v" using u cu by (auto simp: closed_def)
  have kuv: "k u \<noteq> k v" using pr u by (rule proper_neighbour)
  have "c v = Some 0 \<or> c v = Some 1"
    using spec [OF bin [unfolded binary_def], of v] cv by simp
  then have du: "((c1 u = Some 1) = k u) = ((c v = Some 1) = k v)"
    using kuv by (auto simp: c1_def col_def)
  have dv: "((c1 x = Some 1) = k x) = ((c v = Some 1) = k v)"
    if x: "c1 x \<noteq> None" "\<not> closed edges c1 x" for x
  proof (cases "x = u")
    case True
    with du show ?thesis by simp
  next
    case False
    with x(1) have cx: "c x \<noteq> None" by (auto simp: c1_def)
    have "\<not> closed edges c x"
    proof
      assume "closed edges c x"
      then have "closed edges c1 x" using cx ext by (rule closed_extends)
      with x(2) show False by simp
    qed
    with ag cx cv vopen have "((c x = Some 1) = k x) = ((c v = Some 1) = k v)"
      unfolding agree_def by blast
    with ext [OF cx] show ?thesis by simp
  qed
  have "agree edges k c1"
    unfolding agree_def using dv by blast
  then show ?thesis by (simp add: c1_def col_def)
qed

lemma visit_neighbors_proper:
  assumes "proper edges k" and "binary c" and "agree edges k c" and "c v \<noteq> None"
    and "set us \<subseteq> set (neighbourhood edges v)"
    and "visit_neighbors v us (c, f) = (b, c', f')"
  shows "\<not> b \<and> agree edges k c'"
  using assms(2-)
proof (induction us arbitrary: c f)
  case Nil
  then show ?case by simp
next
  case (Cons u us)
  from Cons.prems(4) have u: "u \<in> set (neighbourhood edges v)"
    and us: "set us \<subseteq> set (neighbourhood edges v)" by simp_all
  show ?case
  proof (cases "c u = None")
    case True
    define c1 where "c1 = c(u \<mapsto> (if c v = Some 0 then 1 else 0))"
    from Cons.prems True have r: "visit_neighbors v us (c1, f @ [u]) = (b, c', f')"
      by (simp add: c1_def)
    have "binary c1" using Cons.prems(1) by (auto simp: binary_def c1_def)
    moreover have "agree edges k c1"
      unfolding c1_def using assms(1) Cons.prems(1,2,3) u True by (rule agree_color)
    moreover have "c1 v \<noteq> None" using Cons.prems(3) by (auto simp: c1_def)
    ultimately show ?thesis using us r by (rule Cons.IH)
  next
    case False
    show ?thesis
    proof (cases "c u = c v")
      case True
      have "\<not> closed edges c v" using u True False by (auto simp: closed_def)
      moreover have "\<not> closed edges c u"
        using u True False neighbourhood_sym [of u edges v] by (auto simp: closed_def)
      ultimately have "((c u = Some 1) = k u) = ((c v = Some 1) = k v)"
        using Cons.prems(2,3) False unfolding agree_def by blast
      with True have "k u = k v" by auto
      with proper_neighbour [OF assms(1) u] show ?thesis by simp
    next
      case ne: False
      with False Cons.prems have "visit_neighbors v us (c, f) = (b, c', f')" by auto
      with Cons.IH [OF Cons.prems(1,2,3) us] show ?thesis by blast
    qed
  qed
qed

lemma propagate_proper:
  "proper edges k \<Longrightarrow> binary c \<Longrightarrow> agree edges k c \<Longrightarrow> \<forall>x \<in> set f. c x \<noteq> None \<Longrightarrow>
   propagate edges (c, f) = (b, c') \<Longrightarrow> \<not> b"
proof (induction edges "(c, f)" arbitrary: c f rule: propagate.induct)
  case (1 edges c f)
  show ?case
  proof (cases "f = []")
    case True
    with "1.prems" show ?thesis by (simp add: propagate.simps)
  next
    case False
    define v where "v = last f"
    have cv: "c v \<noteq> None" using False "1.prems"(4) by (simp add: v_def)
    obtain b1 c1 f1 where r: "visit_neighbors v (neighbourhood edges v) (c, butlast f) = (b1, c1, f1)"
      by (cases "visit_neighbors v (neighbourhood edges v) (c, butlast f)")
    from visit_neighbors_proper [OF "1.prems"(1,2,3) cv order_refl [of "set (neighbourhood edges v)"] r]
    have nb: "\<not> b1" and ag: "agree edges k c1" by simp_all
    have bin: "binary c1" using r "1.prems"(2) by (rule visit_neighbors_binary)
    from r nb have r': "visit_neighbors v (neighbourhood edges v) (c, butlast f) = (False, c1, f1)"
      by simp
    have keep: "c1 y = c y" if "c y \<noteq> None" for y
      using visit_neighbors_extends [OF r that] .
    have col: "\<forall>x \<in> set f1. c1 x \<noteq> None"
    proof
      fix x assume "x \<in> set f1"
      with visit_neighbors_done [OF r' cv] have "x \<in> set (butlast f) \<or> c1 x \<noteq> None" by blast
      then show "c1 x \<noteq> None"
        using "1.prems"(4) keep [of x] in_set_butlastD [of x f] by auto
    qed
    from False r nb "1.prems"(5) have "propagate edges (c1, f1) = (b, c')"
      by (simp add: propagate.simps [of edges c f] v_def Let_def)
    from "1.hyps" [OF False v_def refl _ _ "1.prems"(1) bin ag col this] r nb
    show ?thesis by simp
  qed
qed

lemma color_components_proper:
  "proper edges k \<Longrightarrow> binary c \<Longrightarrow> frontier_inv edges c [] \<Longrightarrow>
   color_components n edges c = (b, c') \<Longrightarrow> \<not> b"
proof (induction n edges c rule: color_components.induct)
  case (1 n edges c)
  show ?case
  proof (cases "find (\<lambda>i. c i = None) [0..<n]")
    case None
    with "1.prems" show ?thesis
      by (simp add: color_components.simps [of n edges c])
  next
    case (Some v0)
    then have v0: "c v0 = None" by (auto simp: find_Some_iff)
    define c0 where "c0 = c(v0 \<mapsto> 0)"
    obtain b1 c1 where r: "propagate edges (c0, [v0]) = (b1, c1)"
      by (cases "propagate edges (c0, [v0])")
    have bin0: "binary c0" using "1.prems"(2) by (auto simp: binary_def c0_def)
    have inv0: "frontier_inv edges c0 [v0]"
      unfolding c0_def using "1.prems"(3) v0 by (rule frontier_inv_start)
    then have ag0: "agree edges k c0"
      unfolding agree_def frontier_inv_def by (metis empty_iff empty_set set_ConsD)
    have col0: "\<forall>x \<in> set [v0]. c0 x \<noteq> None" by (simp add: c0_def)
    from propagate_proper [OF "1.prems"(1) bin0 ag0 col0 r] have nb: "\<not> b1" .
    from propagate_result [OF inv0 col0 r] nb have inv1: "frontier_inv edges c1 []" by simp
    have bin1: "binary c1" using r bin0 by (rule propagate_binary)
    from Some r nb "1.prems"(4) have "color_components n edges c1 = (b, c')"
      by (simp add: color_components.simps [of n edges c] Let_def c0_def)
    with "1.IH" [OF Some refl] "1.prems"(1) bin1 inv1 r nb show ?thesis
      by (simp add: c0_def)
  qed
qed

text \<open>A graph on the vertices \<open>0, \<dots>, n - 1\<close>.\<close>

definition graph_ok :: "graph \<Rightarrow> bool" where
  "graph_ok data \<longleftrightarrow> (\<forall>(a, b) \<in> set (snd data). a < fst data \<and> b < fst data)"

lemma greedy_coloring_decides:
  assumes "graph_ok (n, edges)"
  shows "fst (greedy_coloring (n, edges)) \<longleftrightarrow> \<not> (\<exists>k. proper edges k)"
proof -
  obtain b c' where r: "color_components n edges (\<lambda>_. None) = (b, c')"
    by (cases "color_components n edges (\<lambda>_. None)")
  have inv: "frontier_inv edges (\<lambda>_. None) []" by (simp add: frontier_inv_def)
  have bin: "binary (\<lambda>_. None)" by (simp add: binary_def)
  have "\<not> b" if "proper edges k" for k
    using that bin inv r by (rule color_components_proper)
  moreover have "\<exists>k. proper edges k" if nb: "\<not> b"
  proof -
    from color_components_result [OF inv r] nb
    have cl: "frontier_inv edges c' []" and all: "\<forall>i<n. c' i \<noteq> None" by simp_all
    have bin': "binary c'" using r bin by (rule color_components_binary)
    have "proper edges (\<lambda>x. c' x = Some 1)"
      unfolding proper_def
    proof (intro ballI, clarify)
      fix a b' assume e: "(a, b') \<in> set edges"
      with assms have "a < n" by (auto simp: graph_ok_def)
      with all have ca: "c' a \<noteq> None" by simp
      with cl have "closed edges c' a" by (simp add: frontier_inv_def)
      moreover have "b' \<in> set (neighbourhood edges a)" using e by (simp add: neighbourhood_iff)
      ultimately have "c' b' \<noteq> None" "c' b' \<noteq> c' a" by (auto simp: closed_def)
      with ca bin' show "(c' a = Some 1) = (c' b' = Some 1) \<Longrightarrow> False"
        unfolding binary_def by metis
    qed
    then show ?thesis by blast
  qed
  ultimately show ?thesis by (auto simp: greedy_coloring_def r)
qed

subsection \<open>The solver against the specification\<close>

lemma check_coloring_iff:
  "check_coloring edges c \<longleftrightarrow>
     (\<forall>(a, b) \<in> set edges.
        coloring_at c a \<in> {Number 0, Number 1} \<and> coloring_at c b \<in> {Number 0, Number 1}
        \<and> coloring_at c a \<noteq> coloring_at c b)"
  by (auto simp: check_coloring_def list_all_iff validColors_includes_def Let_def)

text \<open>
  Claim C2. When the answer, without its brackets, is empty, the solver returns true
  exactly when the colouring built by the greedy propagation at the moment it stops has
  an edge whose two endpoints received the same colour; for a graph on the vertices
  \<open>0, \<dots>, n - 1\<close> this is the case exactly when no proper 2-colouring exists. When the
  answer is not empty, it is accepted exactly when the parsed list has length \<open>n\<close> and
  for every edge the colours at both endpoints are \<open>0\<close> or \<open>1\<close> and differ. For
  \<open>[4, [[0,2],[0,3],[1,2],[1,3]]]\<close> the answer \<open>[0,0,1,1]\<close> is accepted and \<open>[0,1,1,0]\<close>
  is rejected.
\<close>

theorem two_coloring_solver:
  "(removeBracketsFromArrayString ans = [] \<longrightarrow>
      (coloring_solver (n, edges) ans
         \<longleftrightarrow> same_color_edge edges (snd (greedy_coloring (n, edges))))
      \<and> (graph_ok (n, edges) \<longrightarrow>
            (coloring_solver (n, edges) ans \<longleftrightarrow> \<not> (\<exists>k. proper edges k))))
   \<and> (removeBracketsFromArrayString ans \<noteq> [] \<longrightarrow>
      (coloring_solver (n, edges) ans \<longleftrightarrow>
         length (parse_coloring (removeBracketsFromArrayString ans)) = n
         \<and> (\<forall>(a, b) \<in> set edges.
              coloring_at (parse_coloring (removeBracketsFromArrayString ans)) a \<in> {Number 0, Number 1}
              \<and> coloring_at (parse_coloring (removeBracketsFromArrayString ans)) b \<in> {Number 0, Number 1}
              \<and> coloring_at (parse_coloring (removeBracketsFromArrayString ans)) a
                  \<noteq> coloring_at (parse_coloring (removeBracketsFromArrayString ans)) b)))
   \<and> coloring_solver (4, [(0, 2), (0, 3), (1, 2), (1, 3)]) ''[0,0,1,1]''
   \<and> \<not> coloring_solver (4, [(0, 2), (0, 3), (1, 2), (1, 3)]) ''[0,1,1,0]''"
proof (intro conjI impI)
  assume e: "removeBracketsFromArrayString ans = []"
  then have s: "coloring_solver (n, edges) ans = fst (greedy_coloring (n, edges))"
    by (simp add: coloring_solver_def)
  show "coloring_solver (n, edges) ans
         \<longleftrightarrow> same_color_edge edges (snd (greedy_coloring (n, edges)))"
    unfolding s by (rule greedy_coloring_conflict)
  assume "graph_ok (n, edges)"
  then show "coloring_solver (n, edges) ans \<longleftrightarrow> \<not> (\<exists>k. proper edges k)"
    unfolding s by (rule greedy_coloring_decides)
next
  assume "removeBracketsFromArrayString ans \<noteq> []"
  then show "coloring_solver (n, edges) ans \<longleftrightarrow>
         length (parse_coloring (removeBracketsFromArrayString ans)) = n
         \<and> (\<forall>(a, b) \<in> set edges.
              coloring_at (parse_coloring (removeBracketsFromArrayString ans)) a \<in> {Number 0, Number 1}
              \<and> coloring_at (parse_coloring (removeBracketsFromArrayString ans)) b \<in> {Number 0, Number 1}
              \<and> coloring_at (parse_coloring (removeBracketsFromArrayString ans)) a
                  \<noteq> coloring_at (parse_coloring (removeBracketsFromArrayString ans)) b)"
    by (simp add: coloring_solver_def Let_def check_coloring_iff)
next
  show "coloring_solver (4, [(0, 2), (0, 3), (1, 2), (1, 3)]) ''[0,0,1,1]''"
    by code_simp
next
  show "\<not> coloring_solver (4, [(0, 2), (0, 3), (1, 2), (1, 3)]) ''[0,1,1,0]''"
    by code_simp
qed

theorem two_coloring_solver_witness:
  "removeBracketsFromArrayString ''[]'' = [] \<and> graph_ok (3, [(0, 1), (0, 2), (1, 2)])
   \<and> coloring_solver (3, [(0, 1), (0, 2), (1, 2)]) ''[]''
   \<and> same_color_edge [(0, 1), (0, 2), (1, 2)] (snd (greedy_coloring (3, [(0, 1), (0, 2), (1, 2)])))
   \<and> \<not> (\<exists>k. proper [(0, 1), (0, 2), (1, 2)] k)
   \<and> removeBracketsFromArrayString ''[0,1]'' \<noteq> []
   \<and> \<not> coloring_solver (3, [(0, 1), (0, 2), (1, 2)]) ''[0,1]''
   \<and> length (parse_coloring (removeBracketsFromArrayString ''[0,1]'')) \<noteq> 3"
proof -
  have e: "removeBracketsFromArrayString ''[]'' = []" by code_simp
  have g: "graph_ok (3, [(0, 1), (0, 2), (1, 2)])" by (simp add: graph_ok_def)
  have s: "coloring_solver (3, [(0, 1), (0, 2), (1, 2)]) ''[]''" by code_simp
  have ne: "removeBracketsFromArrayString ''[0,1]'' \<noteq> []" by code_simp
  have l: "length (parse_coloring (removeBracketsFromArrayString ''[0,1]'')) \<noteq> 3" by code_simp
  from two_coloring_solver [of "''[]''" 3 "[(0, 1), (0, 2), (1, 2)]"] e g s
  have "same_color_edge [(0, 1), (0, 2), (1, 2)] (snd (greedy_coloring (3, [(0, 1), (0, 2), (1, 2)])))"
    "\<not> (\<exists>k. proper [(0, 1), (0, 2), (1, 2)] k)"
    by blast+
  moreover from two_coloring_solver [of "''[0,1]''" 3 "[(0, 1), (0, 2), (1, 2)]"] ne l
  have "\<not> coloring_solver (3, [(0, 1), (0, 2), (1, 2)]) ''[0,1]''"
    by blast
  ultimately show ?thesis using e g s ne l by blast
qed

text \<open>
  Claim C10. For two answers whose parsed colour lists both have length \<open>n\<close> and agree
  at every position that is an endpoint of some edge, the solver returns the same
  result: the entries of vertices in no edge, whatever they hold, do not matter.
\<close>

theorem coloring_ignores_isolated:
  assumes "removeBracketsFromArrayString ans1 \<noteq> []" and "removeBracketsFromArrayString ans2 \<noteq> []"
    and "length (parse_coloring (removeBracketsFromArrayString ans1)) = n"
    and "length (parse_coloring (removeBracketsFromArrayString ans2)) = n"
    and "\<forall>v<n. v \<in> fst ` set edges \<union> snd ` set edges \<longrightarrow>
           parse_coloring (removeBracketsFromArrayString ans1) ! v
             = parse_coloring (removeBracketsFromArrayString ans2) ! v"
  shows "coloring_solver (n, edges) ans1 = coloring_solver (n, edges) ans2"
proof -
  define c1 where "c1 = parse_coloring (removeBracketsFromArrayString ans1)"
  define c2 where "c2 = parse_coloring (removeBracketsFromArrayString ans2)"
  have at: "coloring_at c1 v = coloring_at c2 v" if "v \<in> fst ` set edges \<union> snd ` set edges" for v
    using assms(3,4,5) that by (auto simp: coloring_at_def c1_def c2_def)
  have "check_coloring edges c1 = check_coloring edges c2"
    unfolding check_coloring_iff
  proof (intro ball_cong refl)
    fix e assume e: "e \<in> set edges"
    obtain a b where ab: "e = (a, b)" by (cases e)
    with e have "a \<in> fst ` set edges \<union> snd ` set edges" "b \<in> fst ` set edges \<union> snd ` set edges"
      by force+
    with at ab show "(case e of (a, b) \<Rightarrow>
          coloring_at c1 a \<in> {Number 0, Number 1} \<and> coloring_at c1 b \<in> {Number 0, Number 1}
          \<and> coloring_at c1 a \<noteq> coloring_at c1 b)
        = (case e of (a, b) \<Rightarrow>
          coloring_at c2 a \<in> {Number 0, Number 1} \<and> coloring_at c2 b \<in> {Number 0, Number 1}
          \<and> coloring_at c2 a \<noteq> coloring_at c2 b)"
      by simp
  qed
  then show ?thesis
    using assms(1-4) by (simp add: coloring_solver_def Let_def c1_def c2_def)
qed

theorem coloring_ignores_isolated_witness:
  "parse_coloring (removeBracketsFromArrayString ''[0,1,7]'') = [Some 0, Some 1, Some 7]
   \<and> parse_coloring (removeBracketsFromArrayString ''[0,1,x]'') = [Some 0, Some 1, None]
   \<and> coloring_solver (3, [(0, 1)]) ''[0,1,7]''
   \<and> coloring_solver (3, [(0, 1)]) ''[0,1,x]''"
proof -
  have p: "parse_coloring (removeBracketsFromArrayString ''[0,1,7]'') = [Some 0, Some 1, Some 7]"
    "parse_coloring (removeBracketsFromArrayString ''[0,1,x]'') = [Some 0, Some 1, None]"
    by code_simp+
  have ne: "removeBracketsFromArrayString ''[0,1,7]'' \<noteq> []"
    "removeBracketsFromArrayString ''[0,1,x]'' \<noteq> []"
    by code_simp+
  have s: "coloring_solver (3, [(0, 1)]) ''[0,1,7]''" by code_simp
  have "coloring_solver (3, [(0, 1)]) ''[0,1,7]'' = coloring_solver (3, [(0, 1)]) ''[0,1,x]''"
    by (rule coloring_ignores_isolated [OF ne]) (auto simp: p)
  with s p show ?thesis by simp
qed

section \<open>Shortest Path in a Grid\<close>

text \<open>
  \<^verbatim>\<open>
  solver: (data: number[][], ans: string): boolean => {
    const width = data[0].length;
    const height = data.length;
    const dstY = height - 1;
    const dstX = width - 1;
    const distance: [number][] = new Array(height);
    const queue: [number, number][] = [];
    for (let y = 0; y < height; y++) {
      distance[y] = new Array(width).fill(Infinity) as [number];
    }
    function validPosition(y: number, x: number): boolean {
      return y >= 0 && y < height && x >= 0 && x < width && data[y][x] == 0;
    }
    function* neighbors(y: number, x: number): Generator<[number, number]> {
      if (validPosition(y - 1, x)) yield [y - 1, x]; // Up
      if (validPosition(y + 1, x)) yield [y + 1, x]; // Down
      if (validPosition(y, x - 1)) yield [y, x - 1]; // Left
      if (validPosition(y, x + 1)) yield [y, x + 1]; // Right
    }
    distance[0][0] = 0;
    queue.push([0, 0]);
    while (queue.length > 0) {
      const [y, x] = queue.shift() as [number, number];
      for (const [yN, xN] of neighbors(y, x)) {
        if (distance[yN][xN] == Infinity) {
          queue.push([yN, xN]);
          distance[yN][xN] = distance[y][x] + 1;
        }
      }
    }
    if (distance[dstY][dstX] == Infinity) return ans == "";
    if (ans.length > distance[dstY][dstX]) return false;
    let ansX = 0;
    let ansY = 0;
    for (const direction of ans) {
      switch (direction) {
        case "U": ansY -= 1; break;
        case "D": ansY += 1; break;
        case "L": ansX -= 1; break;
        case "R": ansX += 1; break;
        default: return false; // Invalid character
      }
      if (!validPosition(ansY, ansX)) return false;
    }
    return ansY == dstY && ansX == dstX;
  }
  \<close>
  A position is a pair \<open>(y, x)\<close> of integers. The grid is a list of rows; reading a cell
  outside a row gives \<open>undefined\<close> (\<open>None\<close>), which is not \<open>== 0\<close>. The table \<open>distance\<close>
  is a map from positions to distances, \<open>None\<close> for \<open>Infinity\<close>; \<open>Infinity + 1\<close> is
  \<open>Infinity\<close>.
\<close>

type_synonym pos = "int \<times> int"

definition height :: "int list list \<Rightarrow> int" where
  "height data = int (length data)"

definition width :: "int list list \<Rightarrow> int" where
  "width data = int (length (data ! 0))"

definition cell :: "int list list \<Rightarrow> int \<Rightarrow> int \<Rightarrow> int option" where
  "cell data y x =
     (if 0 \<le> y \<and> y < int (length data) \<and> 0 \<le> x \<and> x < int (length (data ! nat y))
      then Some (data ! nat y ! nat x) else None)"

definition validPosition :: "int list list \<Rightarrow> int \<Rightarrow> int \<Rightarrow> bool" where
  "validPosition data y x \<longleftrightarrow>
     y \<ge> 0 \<and> y < height data \<and> x \<ge> 0 \<and> x < width data \<and> cell data y x = Some 0"

definition neighbors :: "int list list \<Rightarrow> int \<Rightarrow> int \<Rightarrow> pos list" where
  "neighbors data y x =
     filter (\<lambda>(yN, xN). validPosition data yN xN) [(y - 1, x), (y + 1, x), (y, x - 1), (y, x + 1)]"

text \<open>The body of the \<open>for\<close> loop over the neighbours of \<open>(y, x)\<close>.\<close>

definition discover :: "pos \<Rightarrow> pos \<Rightarrow> pos list \<times> (pos \<Rightarrow> nat option) \<Rightarrow> pos list \<times> (pos \<Rightarrow> nat option)" where
  "discover p pN st =
     (case st of (queue, distance) \<Rightarrow>
        if distance pN = None then (queue @ [pN], distance(pN := map_option Suc (distance p)))
        else (queue, distance))"

text \<open>The \<open>while\<close> loop. Written for any queue and table it need not stop (a queued
  position at distance \<open>Infinity\<close> would be queued again and again), so it returns an
  option, \<open>None\<close> for a run that never returns.\<close>

partial_function (option) bfs_loop ::
  "int list list \<Rightarrow> pos list \<Rightarrow> (pos \<Rightarrow> nat option) \<Rightarrow> (pos \<Rightarrow> nat option) option" where
  "bfs_loop data queue distance =
     (case queue of
        [] \<Rightarrow> Some distance
      | p # rest \<Rightarrow>
          (case fold (discover p) (neighbors data (fst p) (snd p)) (rest, distance) of
             (queue', distance') \<Rightarrow> bfs_loop data queue' distance'))"

declare bfs_loop.simps [code]

definition bfs :: "int list list \<Rightarrow> (pos \<Rightarrow> nat option) option" where
  "bfs data = bfs_loop data [(0, 0)] ((\<lambda>_. None)((0, 0) \<mapsto> 0))"

text \<open>The walk along the answer; \<open>False\<close> where the solver leaves with \<open>false\<close>.\<close>

definition step :: "char \<Rightarrow> pos \<Rightarrow> pos option" where
  "step direction p =
     (case p of (ansY, ansX) \<Rightarrow>
        if direction = CHR ''U'' then Some (ansY - 1, ansX)
        else if direction = CHR ''D'' then Some (ansY + 1, ansX)
        else if direction = CHR ''L'' then Some (ansY, ansX - 1)
        else if direction = CHR ''R'' then Some (ansY, ansX + 1)
        else None)"

fun follow :: "int list list \<Rightarrow> string \<Rightarrow> pos \<Rightarrow> bool" where
  "follow data [] p = (fst p = height data - 1 \<and> snd p = width data - 1)"
| "follow data (direction # rest) p =
     (case step direction p of
        None \<Rightarrow> False
      | Some q \<Rightarrow> if \<not> validPosition data (fst q) (snd q) then False else follow data rest q)"

text \<open>
  The solver. Without a first row, \<open>data[0].length\<close> throws. The entry
  \<open>distance[dstY][dstX]\<close> exists when the first row has a cell; for an empty first row
  it is \<open>undefined\<close>, which is neither \<open>== Infinity\<close> nor less than a length. The result
  is \<open>None\<close> if the search does not return.
\<close>

definition path_solver :: "int list list \<Rightarrow> string \<Rightarrow> (error + bool) option" where
  "path_solver data ans =
     (if data = [] then Some (Inl TypeError)
      else
        case bfs data of
          None \<Rightarrow> None
        | Some distance \<Rightarrow>
            let dst = (if width data = 0 then None
                       else Some (distance (height data - 1, width data - 1)))
            in if dst = Some None then Some (Inr (ans = []))
               else if (case dst of Some (Some d) \<Rightarrow> length ans > d | _ \<Rightarrow> False)
                 then Some (Inr False)
               else Some (Inr (follow data ans (0, 0))))"

subsection \<open>The search returns\<close>

definition undiscovered :: "int list list \<Rightarrow> (pos \<Rightarrow> nat option) \<Rightarrow> pos set" where
  "undiscovered data distance = {p. validPosition data (fst p) (snd p) \<and> distance p = None}"

lemma finite_undiscovered: "finite (undiscovered data distance)"
proof -
  have "undiscovered data distance \<subseteq> {0..<height data} \<times> {0..<width data}"
    by (auto simp: undiscovered_def validPosition_def)
  then show ?thesis by (rule finite_subset) simp
qed

lemma neighbors_valid: "r \<in> set (neighbors data y x) \<Longrightarrow> validPosition data (fst r) (snd r)"
  unfolding neighbors_def set_filter by auto

lemma discover_measure:
  assumes "distance p \<noteq> None" and "validPosition data (fst r) (snd r)"
    and "discover p r (queue, distance) = (queue', distance')"
  shows "2 * card (undiscovered data distance') + length queue'
           \<le> 2 * card (undiscovered data distance) + length queue"
proof (cases "distance r = None")
  case True
  from assms(1) obtain d where d: "distance p = Some d" by auto
  from True assms(3) d have q: "queue' = queue @ [r]" and dist: "distance' = distance(r \<mapsto> Suc d)"
    by (simp_all add: discover_def)
  have "undiscovered data distance' = undiscovered data distance - {r}"
    by (auto simp: undiscovered_def dist)
  moreover have "r \<in> undiscovered data distance"
    using True assms(2) by (simp add: undiscovered_def)
  ultimately have "card (undiscovered data distance') < card (undiscovered data distance)"
    using card_Diff1_less [OF finite_undiscovered, of r data distance] by simp
  with q show ?thesis by simp
next
  case False
  with assms(3) show ?thesis by (simp add: discover_def)
qed

lemma discover_keeps:
  "discover p r (queue, distance) = (queue', distance') \<Longrightarrow> distance s \<noteq> None \<Longrightarrow>
   distance' s = distance s"
  by (auto simp: discover_def split: if_splits)

lemma fold_discover_keeps:
  "fold (discover p) ns (queue, distance) = (queue', distance') \<Longrightarrow> distance s \<noteq> None \<Longrightarrow>
   distance' s = distance s"
proof (induction ns arbitrary: queue distance)
  case Nil
  then show ?case by simp
next
  case (Cons r ns)
  obtain q1 d1 where s1: "discover p r (queue, distance) = (q1, d1)"
    by (cases "discover p r (queue, distance)")
  with Cons.prems have "fold (discover p) ns (q1, d1) = (queue', distance')" by simp
  moreover have "d1 s = distance s" using s1 Cons.prems(2) by (rule discover_keeps)
  ultimately show ?case using Cons.IH Cons.prems(2) by metis
qed

lemma fold_discover_measure:
  assumes "distance p \<noteq> None" and "\<forall>r \<in> set ns. validPosition data (fst r) (snd r)"
    and "fold (discover p) ns (queue, distance) = (queue', distance')"
  shows "2 * card (undiscovered data distance') + length queue'
           \<le> 2 * card (undiscovered data distance) + length queue"
  using assms
proof (induction ns arbitrary: queue distance)
  case Nil
  then show ?case by simp
next
  case (Cons r ns)
  obtain q1 d1 where s1: "discover p r (queue, distance) = (q1, d1)"
    by (cases "discover p r (queue, distance)")
  with Cons.prems have f: "fold (discover p) ns (q1, d1) = (queue', distance')" by simp
  have "d1 p = distance p" using s1 Cons.prems(1) by (rule discover_keeps)
  with Cons.prems(1) have p1: "d1 p \<noteq> None" by simp
  have v: "\<forall>r \<in> set ns. validPosition data (fst r) (snd r)" using Cons.prems(2) by simp
  have "2 * card (undiscovered data d1) + length q1
          \<le> 2 * card (undiscovered data distance) + length queue"
    using Cons.prems(1) _ s1 by (rule discover_measure) (use Cons.prems(2) in simp)
  with Cons.IH [OF p1 v f] show ?case by simp
qed

text \<open>What one round of the loop does to the queue and the table.\<close>

lemma fold_discover_result:
  assumes "distance p = Some d"
    and "fold (discover p) ns (queue, distance) = (queue', distance')"
  shows "(\<exists>new. queue' = queue @ new
            \<and> (\<forall>r \<in> set new. distance r = None \<and> distance' r = Some (Suc d)))
       \<and> (\<forall>r \<in> set ns. distance' r \<noteq> None)
       \<and> (\<forall>r. distance' r \<noteq> None \<longrightarrow> distance r \<noteq> None \<or> distance' r = Some (Suc d) \<and> r \<in> set queue')"
  using assms
proof (induction ns arbitrary: queue distance)
  case Nil
  then show ?case by simp
next
  case (Cons r ns)
  obtain q1 d1 where s1: "discover p r (queue, distance) = (q1, d1)"
    by (cases "discover p r (queue, distance)")
  with Cons.prems have f: "fold (discover p) ns (q1, d1) = (queue', distance')" by simp
  have keep1: "d1 s = distance s" if "distance s \<noteq> None" for s
    using s1 that by (rule discover_keeps)
  have keep: "distance' s = d1 s" if "d1 s \<noteq> None" for s
    using f that by (rule fold_discover_keeps)
  have p1: "d1 p = Some d" using keep1 [of p] Cons.prems(1) by simp
  from Cons.IH [OF p1 f] obtain new where
    ih: "queue' = q1 @ new" "\<forall>r \<in> set new. d1 r = None \<and> distance' r = Some (Suc d)"
      "\<forall>r \<in> set ns. distance' r \<noteq> None"
      "\<forall>r. distance' r \<noteq> None \<longrightarrow> d1 r \<noteq> None \<or> distance' r = Some (Suc d) \<and> r \<in> set queue'"
    by blast
  show ?case
  proof (cases "distance r = None")
    case True
    with s1 Cons.prems(1) have q1: "q1 = queue @ [r]" and d1: "d1 = distance(r \<mapsto> Suc d)"
      by (simp_all add: discover_def)
    have r': "distance' r = Some (Suc d)" using keep [of r] by (simp add: d1)
    have a: "queue' = queue @ (r # new)" using ih(1) q1 by simp
    have b: "\<forall>s \<in> set (r # new). distance s = None \<and> distance' s = Some (Suc d)"
      using ih(2) True r' by (auto simp: d1 split: if_splits)
    have c: "\<forall>s \<in> set (r # ns). distance' s \<noteq> None" using ih(3) r' by simp
    have e: "\<forall>s. distance' s \<noteq> None \<longrightarrow> distance s \<noteq> None \<or> distance' s = Some (Suc d) \<and> s \<in> set queue'"
    proof (intro allI impI)
      fix s assume "distance' s \<noteq> None"
      with ih(4) have "d1 s \<noteq> None \<or> distance' s = Some (Suc d) \<and> s \<in> set queue'" by blast
      then show "distance s \<noteq> None \<or> distance' s = Some (Suc d) \<and> s \<in> set queue'"
        using r' a by (cases "s = r") (auto simp: d1)
    qed
    from a b c e show ?thesis by blast
  next
    case False
    with s1 have q1: "q1 = queue" and d1: "d1 = distance" by (simp_all add: discover_def)
    have "distance' r \<noteq> None" using keep [of r] False by (simp add: d1)
    with ih show ?thesis unfolding q1 d1 by auto
  qed
qed

subsection \<open>The invariant of the search\<close>

text \<open>
  The queue holds positions of one distance \<open>m\<close> followed by positions of distance
  \<open>m + 1\<close>; a position with a distance that is no longer queued has distance at most \<open>m\<close>,
  and each of its passable neighbours has a distance, larger by at most one.
\<close>

definition bfs_inv :: "int list list \<Rightarrow> pos list \<Rightarrow> (pos \<Rightarrow> nat option) \<Rightarrow> bool" where
  "bfs_inv data queue distance \<longleftrightarrow>
     (\<exists>m a b. queue = a @ b
        \<and> (\<forall>p \<in> set a. distance p = Some m) \<and> (\<forall>p \<in> set b. distance p = Some (Suc m))
        \<and> (\<forall>p d. distance p = Some d \<and> p \<notin> set queue \<longrightarrow> d \<le> m))
     \<and> (\<forall>p d. distance p = Some d \<and> p \<notin> set queue \<longrightarrow>
           (\<forall>r \<in> set (neighbors data (fst p) (snd p)). \<exists>d'. distance r = Some d' \<and> d' \<le> Suc d))"

definition closed_table :: "int list list \<Rightarrow> (pos \<Rightarrow> nat option) \<Rightarrow> bool" where
  "closed_table data distance \<longleftrightarrow>
     (\<forall>p d. distance p = Some d \<longrightarrow>
        (\<forall>r \<in> set (neighbors data (fst p) (snd p)). \<exists>d'. distance r = Some d' \<and> d' \<le> Suc d))"

lemma bfs_inv_round:
  assumes inv: "bfs_inv data (p # rest) distance"
    and f: "fold (discover p) (neighbors data (fst p) (snd p)) (rest, distance) = (queue', distance')"
  shows "bfs_inv data queue' distance'"
proof -
  from inv obtain m a b where lay: "p # rest = a @ b"
    "\<forall>x \<in> set a. distance x = Some m" "\<forall>x \<in> set b. distance x = Some (Suc m)"
    "\<forall>x d. distance x = Some d \<and> x \<notin> set (p # rest) \<longrightarrow> d \<le> m"
    and cl: "\<forall>x d. distance x = Some d \<and> x \<notin> set (p # rest) \<longrightarrow>
           (\<forall>r \<in> set (neighbors data (fst x) (snd x)). \<exists>d'. distance r = Some d' \<and> d' \<le> Suc d)"
    unfolding bfs_inv_def by blast
  have queued: "distance x = Some m \<or> distance x = Some (Suc m)" if "x \<in> set (p # rest)" for x
  proof -
    from that lay(1) have "x \<in> set a \<or> x \<in> set b" by (metis Un_iff set_append)
    with lay(2,3) show ?thesis by blast
  qed
  from queued [of p] obtain d where d: "distance p = Some d" "m \<le> d" "d \<le> Suc m" by auto
  have keep: "distance' s = distance s" if "distance s \<noteq> None" for s
    using f that by (rule fold_discover_keeps)
  from fold_discover_result [OF d(1) f] obtain new where
    res: "queue' = rest @ new" "\<forall>r \<in> set new. distance r = None \<and> distance' r = Some (Suc d)"
      "\<forall>r \<in> set (neighbors data (fst p) (snd p)). distance' r \<noteq> None"
      "\<forall>r. distance' r \<noteq> None \<longrightarrow> distance r \<noteq> None \<or> distance' r = Some (Suc d) \<and> r \<in> set queue'"
    by blast
  have old: "distance x = Some dx \<and> x \<notin> set rest"
    if "distance' x = Some dx" "x \<notin> set queue'" for x dx
  proof -
    from that res(4) [rule_format, of x] have "distance x \<noteq> None" by auto
    with keep [of x] that show ?thesis by (simp add: res(1))
  qed
  have done_le: "dx \<le> d" if "distance' x = Some dx" "x \<notin> set queue'" for x dx
  proof (cases "x = p")
    case True
    with old [OF that] d(1) show ?thesis by simp
  next
    case False
    with old [OF that] lay(4) d(2) show ?thesis by fastforce
  qed
  have layer: "\<exists>m' a' b'. queue' = a' @ b'
        \<and> (\<forall>x \<in> set a'. distance' x = Some m') \<and> (\<forall>x \<in> set b'. distance' x = Some (Suc m'))
        \<and> (\<forall>x dx. distance' x = Some dx \<and> x \<notin> set queue' \<longrightarrow> dx \<le> m')"
  proof (cases a)
    case Nil
    with lay(1) have b: "b = p # rest" by simp
    with lay(3) d(1) have dm: "d = Suc m" by simp
    have "\<forall>x \<in> set rest. distance' x = Some d"
      using lay(3) b keep dm by auto
    moreover have "\<forall>x \<in> set new. distance' x = Some (Suc d)" using res(2) by blast
    moreover have "\<forall>x dx. distance' x = Some dx \<and> x \<notin> set queue' \<longrightarrow> dx \<le> d"
      using done_le by blast
    ultimately show ?thesis using res(1) by blast
  next
    case (Cons p' a')
    with lay(1) have pa: "p' = p" and rest: "rest = a' @ b" by simp_all
    with lay(2) Cons d(1) have dm: "d = m" by simp
    have "\<forall>x \<in> set a'. distance' x = Some d"
      using lay(2) Cons keep dm by auto
    moreover have "\<forall>x \<in> set (b @ new). distance' x = Some (Suc d)"
      using lay(3) res(2) keep dm by auto
    moreover have "\<forall>x dx. distance' x = Some dx \<and> x \<notin> set queue' \<longrightarrow> dx \<le> d"
      using done_le by blast
    moreover have "queue' = a' @ (b @ new)" using res(1) rest by simp
    ultimately show ?thesis by blast
  qed
  have closed: "\<exists>d'. distance' r = Some d' \<and> d' \<le> Suc dx"
    if x: "distance' x = Some dx" "x \<notin> set queue'"
      and r: "r \<in> set (neighbors data (fst x) (snd x))" for x dx r
  proof (cases "x = p")
    case False
    with old [OF x] cl r obtain d' where "distance r = Some d'" "d' \<le> Suc dx"
      by fastforce
    with keep [of r] show ?thesis by simp
  next
    case True
    with old [OF x] d(1) have dx: "dx = d" by simp
    from r True res(3) obtain d' where d': "distance' r = Some d'" by auto
    show ?thesis
    proof (cases "distance r")
      case None
      with res(4) [rule_format, of r] d' have "d' = Suc d" by auto
      with d' dx show ?thesis by simp
    next
      case (Some e)
      with keep [of r] d' have e: "distance r = Some d'" by simp
      have "d' \<le> Suc m"
      proof (cases "r \<in> set (p # rest)")
        case True
        from queued [OF this] e show ?thesis by auto
      next
        case False
        with e lay(4) have "d' \<le> m" by blast
        then show ?thesis by simp
      qed
      with d(2) d' dx show ?thesis by simp
    qed
  qed
  show ?thesis
    unfolding bfs_inv_def using layer closed by blast
qed

lemma bfs_loop_returns:
  assumes "bfs_inv data queue distance"
  shows "\<exists>distance'. bfs_loop data queue distance = Some distance'
           \<and> closed_table data distance'
           \<and> (\<forall>s. distance s \<noteq> None \<longrightarrow> distance' s = distance s)"
  using assms
proof (induction "2 * card (undiscovered data distance) + length queue"
    arbitrary: queue distance rule: less_induct)
  case less
  show ?case
  proof (cases queue)
    case Nil
    with less.prems have "closed_table data distance"
      by (simp add: bfs_inv_def closed_table_def)
    with Nil show ?thesis by (subst bfs_loop.simps) simp
  next
    case (Cons p rest)
    obtain queue' distance' where
      f: "fold (discover p) (neighbors data (fst p) (snd p)) (rest, distance) = (queue', distance')"
      by (cases "fold (discover p) (neighbors data (fst p) (snd p)) (rest, distance)")
    have inv': "bfs_inv data queue' distance'"
      using less.prems f unfolding Cons by (rule bfs_inv_round)
    have dp: "distance p \<noteq> None"
      using less.prems unfolding Cons bfs_inv_def by (metis Un_iff list.set_intros(1) option.simps(3) set_append)
    have "\<forall>r \<in> set (neighbors data (fst p) (snd p)). validPosition data (fst r) (snd r)"
      using neighbors_valid by blast
    from fold_discover_measure [OF dp this f]
    have "2 * card (undiscovered data distance') + length queue'
            < 2 * card (undiscovered data distance) + length queue"
      by (simp add: Cons)
    from less.hyps [OF this inv'] obtain dist'' where
      r: "bfs_loop data queue' distance' = Some dist''" "closed_table data dist''"
        "\<forall>s. distance' s \<noteq> None \<longrightarrow> dist'' s = distance' s"
      by blast
    have keep: "distance' s = distance s" if "distance s \<noteq> None" for s
      using f that by (rule fold_discover_keeps)
    have "\<forall>s. distance s \<noteq> None \<longrightarrow> dist'' s = distance s"
      using r(3) keep by auto
    with r(1,2) Cons f show ?thesis
      by (subst bfs_loop.simps) simp
  qed
qed

lemma bfs_returns:
  "\<exists>distance. bfs data = Some distance \<and> closed_table data distance \<and> distance (0, 0) = Some 0"
proof -
  have "bfs_inv data [(0, 0)] ((\<lambda>_. None)((0, 0) \<mapsto> 0))"
    unfolding bfs_inv_def
  proof (intro conjI)
    show "\<exists>m a b. [(0, 0)] = a @ b
        \<and> (\<forall>p \<in> set a. ((\<lambda>_. None)((0, 0) \<mapsto> 0)) p = Some m)
        \<and> (\<forall>p \<in> set b. ((\<lambda>_. None)((0, 0) \<mapsto> 0)) p = Some (Suc m))
        \<and> (\<forall>p d. ((\<lambda>_. None)((0, 0) \<mapsto> 0)) p = Some d \<and> p \<notin> set [(0, 0)] \<longrightarrow> d \<le> m)"
      by (rule exI [of _ 0], rule exI [of _ "[(0, 0)]"], rule exI [of _ "[]"]) auto
  qed auto
  from bfs_loop_returns [OF this] show ?thesis
    unfolding bfs_def by fastforce
qed

subsection \<open>The walk an answer describes\<close>

definition move :: "char \<Rightarrow> pos \<Rightarrow> pos" where
  "move c p =
     (if c = CHR ''U'' then (fst p - 1, snd p)
      else if c = CHR ''D'' then (fst p + 1, snd p)
      else if c = CHR ''L'' then (fst p, snd p - 1)
      else if c = CHR ''R'' then (fst p, snd p + 1)
      else p)"

text \<open>The positions reached after each character of the answer, in order.\<close>

fun walk :: "string \<Rightarrow> pos \<Rightarrow> pos list" where
  "walk [] p = []"
| "walk (c # cs) p = move c p # walk cs (move c p)"

definition free_cell :: "int list list \<Rightarrow> pos \<Rightarrow> bool" where
  "free_cell data p \<longleftrightarrow>
     0 \<le> fst p \<and> fst p < height data \<and> 0 \<le> snd p \<and> snd p < width data
     \<and> cell data (fst p) (snd p) = Some 0"

definition destination :: "int list list \<Rightarrow> pos" where
  "destination data = (height data - 1, width data - 1)"

lemma step_move:
  "step c p = (if c \<in> {CHR ''U'', CHR ''D'', CHR ''L'', CHR ''R''} then Some (move c p) else None)"
  by (cases p) (simp add: step_def move_def)

lemma validPosition_free_cell: "validPosition data (fst q) (snd q) = free_cell data q"
  by (auto simp: validPosition_def free_cell_def)

lemma follow_iff:
  "follow data ans p \<longleftrightarrow>
     set ans \<subseteq> {CHR ''U'', CHR ''D'', CHR ''L'', CHR ''R''}
     \<and> (\<forall>q \<in> set (walk ans p). free_cell data q)
     \<and> last (p # walk ans p) = destination data"
proof (induction ans arbitrary: p)
  case Nil
  show ?case by (cases p) (auto simp: destination_def)
next
  case (Cons c cs)
  show ?case
  proof (cases "c \<in> {CHR ''U'', CHR ''D'', CHR ''L'', CHR ''R''}")
    case True
    then have "step c p = Some (move c p)" by (simp only: step_move if_True)
    then have "follow data (c # cs) p
        \<longleftrightarrow> free_cell data (move c p) \<and> follow data cs (move c p)"
      by (simp add: validPosition_free_cell)
    with Cons.IH [of "move c p"] True show ?thesis by auto
  next
    case False
    then have "step c p = None" by (simp only: step_move if_False)
    with False show ?thesis by simp
  qed
qed

lemma move_neighbor:
  assumes "c \<in> {CHR ''U'', CHR ''D'', CHR ''L'', CHR ''R''}" and "free_cell data (move c p)"
  shows "move c p \<in> set (neighbors data (fst p) (snd p))"
proof -
  have "move c p \<in> set [(fst p - 1, snd p), (fst p + 1, snd p), (fst p, snd p - 1), (fst p, snd p + 1)]"
    using assms(1) by (auto simp: move_def)
  moreover have "validPosition data (fst (move c p)) (snd (move c p))"
    using assms(2) by (simp add: validPosition_free_cell)
  ultimately show ?thesis
    unfolding neighbors_def set_filter by auto
qed

lemma walk_distance:
  assumes "closed_table data distance"
  shows "distance p = Some d \<Longrightarrow> follow data ans p \<Longrightarrow>
         \<exists>e. distance (destination data) = Some e \<and> e \<le> d + length ans"
proof (induction ans arbitrary: p d)
  case Nil
  then show ?case by (cases p) (auto simp: destination_def)
next
  case (Cons c cs)
  from Cons.prems(2) have c: "c \<in> {CHR ''U'', CHR ''D'', CHR ''L'', CHR ''R''}"
    and free: "free_cell data (move c p)" and rest: "follow data cs (move c p)"
    unfolding follow_iff by auto
  from move_neighbor [OF c free] assms Cons.prems(1)
  obtain d' where d': "distance (move c p) = Some d'" "d' \<le> Suc d"
    unfolding closed_table_def by blast
  from Cons.IH [OF d'(1) rest] obtain e where "distance (destination data) = Some e" "e \<le> d' + length cs"
    by blast
  with d'(2) show ?case by auto
qed

subsection \<open>The distances found are the shortest\<close>

text \<open>A position is reached in \<open>d\<close> steps when some answer of length \<open>d\<close> walks to it from
  the top-left cell over free cells.\<close>

definition reach :: "int list list \<Rightarrow> pos \<Rightarrow> nat \<Rightarrow> bool" where
  "reach data p d \<longleftrightarrow>
     (\<exists>ans. length ans = d
        \<and> set ans \<subseteq> {CHR ''U'', CHR ''D'', CHR ''L'', CHR ''R''}
        \<and> (\<forall>q \<in> set (walk ans (0, 0)). free_cell data q)
        \<and> last ((0, 0) # walk ans (0, 0)) = p)"

definition reach_inv :: "int list list \<Rightarrow> (pos \<Rightarrow> nat option) \<Rightarrow> bool" where
  "reach_inv data distance \<longleftrightarrow> (\<forall>p d. distance p = Some d \<longrightarrow> reach data p d)"

lemma walk_append: "walk (as @ bs) p = walk as p @ walk bs (last (p # walk as p))"
  by (induction as arbitrary: p) simp_all

lemma reach_step:
  assumes "reach data p d" and "c \<in> {CHR ''U'', CHR ''D'', CHR ''L'', CHR ''R''}"
    and "free_cell data (move c p)"
  shows "reach data (move c p) (Suc d)"
proof -
  from assms(1) obtain ans where a: "length ans = d"
    "set ans \<subseteq> {CHR ''U'', CHR ''D'', CHR ''L'', CHR ''R''}"
    "\<forall>q \<in> set (walk ans (0, 0)). free_cell data q" "last ((0, 0) # walk ans (0, 0)) = p"
    unfolding reach_def by blast
  have w: "walk (ans @ [c]) (0, 0) = walk ans (0, 0) @ [move c p]"
    using a(4) by (simp add: walk_append)
  have "length (ans @ [c]) = Suc d" using a(1) by simp
  moreover have "set (ans @ [c]) \<subseteq> {CHR ''U'', CHR ''D'', CHR ''L'', CHR ''R''}"
    using a(2) assms(2) by simp
  moreover have "\<forall>q \<in> set (walk (ans @ [c]) (0, 0)). free_cell data q"
    using a(3) assms(3) by (simp add: w)
  moreover have "last ((0, 0) # walk (ans @ [c]) (0, 0)) = move c p"
    by (simp add: w)
  ultimately show ?thesis unfolding reach_def by blast
qed

lemma neighbors_move:
  assumes "r \<in> set (neighbors data (fst p) (snd p))"
  shows "\<exists>c \<in> {CHR ''U'', CHR ''D'', CHR ''L'', CHR ''R''}. r = move c p \<and> free_cell data r"
proof -
  from assms have v: "validPosition data (fst r) (snd r)" by (rule neighbors_valid)
  from assms have "r \<in> set [(fst p - 1, snd p), (fst p + 1, snd p), (fst p, snd p - 1), (fst p, snd p + 1)]"
    unfolding neighbors_def set_filter by blast
  then have "r = move CHR ''U'' p \<or> r = move CHR ''D'' p \<or> r = move CHR ''L'' p \<or> r = move CHR ''R'' p"
    by (auto simp: move_def)
  with v show ?thesis by (auto simp: validPosition_free_cell)
qed

lemma fold_discover_reach:
  assumes "set ns \<subseteq> set (neighbors data (fst p) (snd p))"
  shows "reach_inv data distance \<Longrightarrow> distance p = Some d \<Longrightarrow>
         fold (discover p) ns (queue, distance) = (queue', distance') \<Longrightarrow> reach_inv data distance'"
  using assms
proof (induction ns arbitrary: queue distance)
  case Nil
  then show ?case by simp
next
  case (Cons r ns)
  obtain q1 d1 where s1: "discover p r (queue, distance) = (q1, d1)"
    by (cases "discover p r (queue, distance)")
  with Cons.prems have f: "fold (discover p) ns (q1, d1) = (queue', distance')" by simp
  have p1: "d1 p = Some d" using discover_keeps [OF s1, of p] Cons.prems(2) by simp
  from Cons.prems(4) have r: "r \<in> set (neighbors data (fst p) (snd p))"
    and ns: "set ns \<subseteq> set (neighbors data (fst p) (snd p))" by simp_all
  have "reach_inv data d1"
  proof (cases "distance r = None")
    case True
    with s1 Cons.prems(2) have d1: "d1 = distance(r \<mapsto> Suc d)" by (simp add: discover_def)
    from neighbors_move [OF r] obtain c where
      "c \<in> {CHR ''U'', CHR ''D'', CHR ''L'', CHR ''R''}" "r = move c p" "free_cell data r" by blast
    moreover have "reach data p d" using Cons.prems(1,2) unfolding reach_inv_def by blast
    ultimately have "reach data r (Suc d)" using reach_step by metis
    with Cons.prems(1) show ?thesis by (simp add: reach_inv_def d1)
  next
    case False
    with s1 Cons.prems(1) show ?thesis by (simp add: discover_def)
  qed
  from Cons.IH [OF this p1 f ns] show ?case .
qed

lemma bfs_loop_reach:
  "bfs_inv data queue distance \<Longrightarrow> reach_inv data distance \<Longrightarrow>
   bfs_loop data queue distance = Some distance' \<Longrightarrow> reach_inv data distance'"
proof (induction "2 * card (undiscovered data distance) + length queue"
    arbitrary: queue distance rule: less_induct)
  case less
  show ?case
  proof (cases queue)
    case Nil
    with less.prems show ?thesis by (simp add: bfs_loop.simps)
  next
    case (Cons p rest)
    obtain queue1 distance1 where
      f: "fold (discover p) (neighbors data (fst p) (snd p)) (rest, distance) = (queue1, distance1)"
      by (cases "fold (discover p) (neighbors data (fst p) (snd p)) (rest, distance)")
    have inv1: "bfs_inv data queue1 distance1"
      using less.prems(1) f unfolding Cons by (rule bfs_inv_round)
    obtain d where dp: "distance p = Some d"
      using less.prems(1) unfolding Cons bfs_inv_def by (metis Un_iff list.set_intros(1) set_append)
    have r1: "reach_inv data distance1"
      using order_refl less.prems(2) dp f by (rule fold_discover_reach)
    have "\<forall>r \<in> set (neighbors data (fst p) (snd p)). validPosition data (fst r) (snd r)"
      using neighbors_valid by blast
    with dp f have m: "2 * card (undiscovered data distance1) + length queue1
            < 2 * card (undiscovered data distance) + length queue"
      using fold_discover_measure [of distance p "neighbors data (fst p) (snd p)" data rest queue1 distance1]
      by (simp add: Cons)
    from less.prems(3) have "bfs_loop data queue1 distance1 = Some distance'"
      unfolding Cons by (subst (asm) bfs_loop.simps) (simp add: f)
    from less.hyps [OF m inv1 r1 this] show ?thesis .
  qed
qed

lemma walk_reaches:
  assumes "closed_table data distance"
  shows "distance p = Some d \<Longrightarrow> set ans \<subseteq> {CHR ''U'', CHR ''D'', CHR ''L'', CHR ''R''} \<Longrightarrow>
         \<forall>q \<in> set (walk ans p). free_cell data q \<Longrightarrow>
         \<exists>e. distance (last (p # walk ans p)) = Some e \<and> e \<le> d + length ans"
proof (induction ans arbitrary: p d)
  case Nil
  then show ?case by simp
next
  case (Cons c cs)
  from Cons.prems have c: "c \<in> {CHR ''U'', CHR ''D'', CHR ''L'', CHR ''R''}"
    and free: "free_cell data (move c p)"
    and cs: "set cs \<subseteq> {CHR ''U'', CHR ''D'', CHR ''L'', CHR ''R''}"
      "\<forall>q \<in> set (walk cs (move c p)). free_cell data q"
    by simp_all
  from move_neighbor [OF c free] assms Cons.prems(1)
  obtain d' where d': "distance (move c p) = Some d'" "d' \<le> Suc d"
    unfolding closed_table_def by blast
  from Cons.IH [OF d'(1) cs] obtain e
    where "distance (last (move c p # walk cs (move c p))) = Some e" "e \<le> d' + length cs"
    by blast
  with d'(2) show ?case by auto
qed

text \<open>The table the search returns gives each position reachable from the top-left cell
  the least number of steps that reach it, and no distance to any other position.\<close>

lemma bfs_shortest:
  assumes "bfs data = Some distance"
  shows "(distance p = None \<longleftrightarrow> \<not> (\<exists>d. reach data p d))
       \<and> (\<forall>d. distance p = Some d \<longrightarrow> reach data p d \<and> (\<forall>d'. reach data p d' \<longrightarrow> d \<le> d'))"
proof -
  from bfs_returns [of data] assms have cl: "closed_table data distance"
    and s: "distance (0, 0) = Some 0" by auto
  have inv0: "bfs_inv data [(0, 0)] ((\<lambda>_. None)((0, 0) \<mapsto> 0))"
    unfolding bfs_inv_def
  proof (intro conjI)
    show "\<exists>m a b. [(0, 0)] = a @ b
        \<and> (\<forall>p \<in> set a. ((\<lambda>_. None)((0, 0) \<mapsto> 0)) p = Some m)
        \<and> (\<forall>p \<in> set b. ((\<lambda>_. None)((0, 0) \<mapsto> 0)) p = Some (Suc m))
        \<and> (\<forall>p d. ((\<lambda>_. None)((0, 0) \<mapsto> 0)) p = Some d \<and> p \<notin> set [(0, 0)] \<longrightarrow> d \<le> m)"
      by (rule exI [of _ 0], rule exI [of _ "[(0, 0)]"], rule exI [of _ "[]"]) auto
  qed auto
  have "reach data (0, 0) 0" unfolding reach_def by (rule exI [of _ "[]"]) simp
  then have "reach_inv data ((\<lambda>_. None)((0, 0) \<mapsto> 0))"
    by (simp add: reach_inv_def)
  from bfs_loop_reach [OF inv0 this assms [unfolded bfs_def]]
  have ri: "reach_inv data distance" .
  have lower: "\<exists>e. distance p = Some e \<and> e \<le> d'" if "reach data p d'" for d'
  proof -
    from that obtain ans where a: "length ans = d'"
      "set ans \<subseteq> {CHR ''U'', CHR ''D'', CHR ''L'', CHR ''R''}"
      "\<forall>q \<in> set (walk ans (0, 0)). free_cell data q" "last ((0, 0) # walk ans (0, 0)) = p"
      unfolding reach_def by blast
    from walk_reaches [OF cl s a(2,3)] a(1,4) show ?thesis by simp
  qed
  have upper: "reach data p d" if "distance p = Some d" for d
    using ri that unfolding reach_inv_def by blast
  show ?thesis
  proof (intro conjI)
    show "distance p = None \<longleftrightarrow> \<not> (\<exists>d. reach data p d)"
      using lower upper by (cases "distance p") fastforce+
  next
    show "\<forall>d. distance p = Some d \<longrightarrow> reach data p d \<and> (\<forall>d'. reach data p d' \<longrightarrow> d \<le> d')"
      using upper lower by fastforce
  qed
qed

subsection \<open>The solver against the specification\<close>

lemma path_solver_unfold:
  assumes "data \<noteq> []" and "data ! 0 \<noteq> []" and "bfs data = Some distance"
  shows "path_solver data ans =
     Some (Inr (case distance (destination data) of
                  None \<Rightarrow> ans = []
                | Some d \<Rightarrow> length ans \<le> d \<and> follow data ans (0, 0)))"
proof -
  have w: "width data \<noteq> 0" using assms(2) by (simp add: width_def)
  show ?thesis
    using assms(1,3) w
    by (cases "distance (destination data)")
      (auto simp: path_solver_def destination_def Let_def)
qed

text \<open>
  Claim C1. For a grid with a first row that has a cell, the search returns a table; it
  holds no distance for the bottom-right cell exactly when no walk over free cells
  leads there from the top-left cell, and otherwise the least number of steps of such a
  walk. If the table holds no distance for the bottom-right cell, the solver accepts
  exactly the empty answer. If it holds the distance \<open>d\<close>, the solver accepts exactly the answers
  made of the characters \<open>U\<close>, \<open>D\<close>, \<open>L\<close>, \<open>R\<close> whose walk from the top-left cell stays
  inside the grid and on cells valued \<open>0\<close> after every step, ends at the bottom-right
  cell, and has at most \<open>d\<close> steps. On the grid \<open>[[0,1],[1,0]]\<close> only the empty answer is
  accepted.
\<close>

theorem path_solver_spec:
  assumes "data \<noteq> []" and "data ! 0 \<noteq> []"
  shows "(\<exists>distance. bfs data = Some distance
      \<and> path_solver data ans =
          Some (Inr (case distance (destination data) of
                       None \<Rightarrow> ans = []
                     | Some d \<Rightarrow>
                         set ans \<subseteq> {CHR ''U'', CHR ''D'', CHR ''L'', CHR ''R''}
                         \<and> (\<forall>q \<in> set (walk ans (0, 0)). free_cell data q)
                         \<and> last ((0, 0) # walk ans (0, 0)) = destination data
                         \<and> length ans \<le> d))
      \<and> (distance (destination data) = None \<longleftrightarrow> \<not> (\<exists>d. reach data (destination data) d))
      \<and> (\<forall>d. distance (destination data) = Some d \<longrightarrow>
            reach data (destination data) d
            \<and> (\<forall>d'. reach data (destination data) d' \<longrightarrow> d \<le> d')))
    \<and> (\<forall>a. path_solver [[0, 1], [1, 0]] a = Some (Inr (a = [])))"
proof
  from bfs_returns obtain distance where b: "bfs data = Some distance" by blast
  have "path_solver data ans =
          Some (Inr (case distance (destination data) of
                       None \<Rightarrow> ans = []
                     | Some d \<Rightarrow>
                         set ans \<subseteq> {CHR ''U'', CHR ''D'', CHR ''L'', CHR ''R''}
                         \<and> (\<forall>q \<in> set (walk ans (0, 0)). free_cell data q)
                         \<and> last ((0, 0) # walk ans (0, 0)) = destination data
                         \<and> length ans \<le> d))"
    unfolding path_solver_unfold [OF assms b] follow_iff
    by (cases "distance (destination data)") auto
  with b bfs_shortest [OF b, of "destination data"]
  show "\<exists>distance. bfs data = Some distance
      \<and> path_solver data ans =
          Some (Inr (case distance (destination data) of
                       None \<Rightarrow> ans = []
                     | Some d \<Rightarrow>
                         set ans \<subseteq> {CHR ''U'', CHR ''D'', CHR ''L'', CHR ''R''}
                         \<and> (\<forall>q \<in> set (walk ans (0, 0)). free_cell data q)
                         \<and> last ((0, 0) # walk ans (0, 0)) = destination data
                         \<and> length ans \<le> d))
      \<and> (distance (destination data) = None \<longleftrightarrow> \<not> (\<exists>d. reach data (destination data) d))
      \<and> (\<forall>d. distance (destination data) = Some d \<longrightarrow>
            reach data (destination data) d
            \<and> (\<forall>d'. reach data (destination data) d' \<longrightarrow> d \<le> d'))"
    by (intro exI [of _ distance] conjI) (rule TrueI | assumption | erule conjunct1 | erule conjunct2)+
next
  have u: "(case bfs [[0, 1], [1, 0]] of None \<Rightarrow> False
            | Some distance \<Rightarrow> distance (destination [[0, 1], [1, 0]]) = None)"
    by code_simp
  then obtain distance where b: "bfs [[0, 1], [1, 0]] = Some distance"
    and n: "distance (destination [[0, 1], [1, 0]]) = None"
    by (auto split: option.splits)
  have "[[0, 1], [1, 0 :: int]] \<noteq> []" "[[0, 1], [1, 0 :: int]] ! 0 \<noteq> []" by simp_all
  from path_solver_unfold [OF this b] n
  show "\<forall>a. path_solver [[0, 1], [1, 0]] a = Some (Inr (a = []))" by simp
qed

theorem path_solver_spec_witness:
  "[[0, 0], [1, 0 :: int]] \<noteq> [] \<and> [[0, 0], [1, 0 :: int]] ! 0 \<noteq> []
   \<and> path_solver [[0, 0], [1, 0]] ''RD'' = Some (Inr True)
   \<and> path_solver [[0, 0], [1, 0]] ''DR'' = Some (Inr False)
   \<and> path_solver [[0, 1], [1, 0]] ''DR'' = Some (Inr False)
   \<and> path_solver [[0, 1], [1, 0]] [] = Some (Inr True)"
proof -
  have h: "[[0, 0], [1, 0 :: int]] \<noteq> []" "[[0, 0], [1, 0 :: int]] ! 0 \<noteq> []" by simp_all
  have e: "path_solver [[0, 0], [1, 0]] ''RD'' = Some (Inr True)"
    "path_solver [[0, 0], [1, 0]] ''DR'' = Some (Inr False)"
    by code_simp+
  from path_solver_spec [OF h, of "''RD''", THEN conjunct2]
  have "path_solver [[0, 1], [1, 0]] ''DR'' = Some (Inr False)"
    "path_solver [[0, 1], [1, 0]] [] = Some (Inr True)"
    by simp_all
  with h e show ?thesis by simp
qed

text \<open>
  Claim C9. An accepted answer that is not empty has exactly as many characters as the
  distance the search found for the bottom-right cell.
\<close>

theorem accepted_path_length:
  assumes "path_solver data ans = Some (Inr True)" and "ans \<noteq> []"
  shows "\<exists>distance d. bfs data = Some distance
           \<and> distance (destination data) = Some d \<and> length ans = d"
proof -
  from bfs_returns obtain distance where b: "bfs data = Some distance"
    and cl: "closed_table data distance" and s: "distance (0, 0) = Some 0" by blast
  from assms(1) have ne: "data \<noteq> []" by (auto simp: path_solver_def split: if_splits)
  have w: "width data \<noteq> 0"
  proof
    assume w0: "width data = 0"
    with assms(1) ne b have "follow data ans (0, 0)"
      by (simp add: path_solver_def Let_def)
    with assms(2) w0 show False
      by (cases ans) (auto simp: validPosition_def split: option.splits if_splits)
  qed
  from assms ne b w have f: "follow data ans (0, 0)"
    and d: "case distance (destination data) of None \<Rightarrow> ans = [] | Some d \<Rightarrow> length ans \<le> d"
    by (auto simp: path_solver_def Let_def destination_def split: if_splits option.splits)
  from d assms(2) obtain d' where d': "distance (destination data) = Some d'" "length ans \<le> d'"
    by (auto split: option.splits)
  from walk_distance [OF cl s f] d'(1) have "d' \<le> length ans" by simp
  with b d' show ?thesis by auto
qed

theorem accepted_path_length_witness:
  "path_solver [[0, 0], [1, 0]] ''RD'' = Some (Inr True) \<and> ''RD'' \<noteq> []
   \<and> (case bfs [[0, 0], [1, 0]] of None \<Rightarrow> False
       | Some distance \<Rightarrow> distance (destination [[0, 0], [1, 0]]) = Some (length ''RD''))"
proof -
  have a: "path_solver [[0, 0], [1, 0]] ''RD'' = Some (Inr True)" by code_simp
  have n: "''RD'' \<noteq> []" by simp
  from accepted_path_length [OF a n] a n show ?thesis by auto
qed

section \<open>Square Root\<close>

text \<open>
  \<^verbatim>\<open>
  getData(state: [string, string]): bigint {
    const ans = BigInt(state[0]);
    return ans * ans + BigInt(state[1]);
  }
  solver(state: [string, string], ans: string): boolean {
    return state[0] === ans;
  }
  \<close>
\<close>

definition sqrt_getData :: "string \<times> string \<Rightarrow> error + int" where
  "sqrt_getData state =
     (case BigInt (fst state) of
        Inl e \<Rightarrow> Inl e
      | Inr ans \<Rightarrow> (case BigInt (snd state) of Inl e \<Rightarrow> Inl e | Inr off \<Rightarrow> Inr (ans * ans + off)))"

definition sqrt_solver :: "string \<times> string \<Rightarrow> string \<Rightarrow> bool" where
  "sqrt_solver state ans \<longleftrightarrow> fst state = ans"

text \<open>
  Claim C5. The data shown to the player is the stored root, read as a big integer,
  squared, plus the stored offset (for the decimal strings the generator stores this is
  \<open>r * r + off\<close>); the solver accepts exactly the answers equal, character for character,
  to the stored root string, whatever the offset (and so whatever the displayed data) is.
\<close>

theorem sqrt_contract:
  "(\<forall>a b. BigInt (fst state) = Inr a \<and> BigInt (snd state) = Inr b
      \<longrightarrow> sqrt_getData state = Inr (a * a + b))
   \<and> sqrt_getData (toString r, toString off) = Inr (r * r + off)
   \<and> (sqrt_solver state ans \<longleftrightarrow> ans = fst state)
   \<and> sqrt_solver (root, off1) ans = sqrt_solver (root, off2) ans"
proof (intro conjI allI impI)
  fix a b
  assume "BigInt (fst state) = Inr a \<and> BigInt (snd state) = Inr b"
  then show "sqrt_getData state = Inr (a * a + b)"
    by (simp add: sqrt_getData_def)
next
  show "sqrt_getData (toString r, toString off) = Inr (r * r + off)"
    by (simp add: sqrt_getData_def BigInt_toString)
next
  show "sqrt_solver state ans \<longleftrightarrow> ans = fst state"
    by (auto simp: sqrt_solver_def)
next
  show "sqrt_solver (root, off1) ans = sqrt_solver (root, off2) ans"
    by (simp add: sqrt_solver_def)
qed

theorem sqrt_contract_witness:
  "BigInt (fst (''12'', ''-3'')) = Inr 12 \<and> BigInt (snd (''12'', ''-3'')) = Inr (- 3)
   \<and> sqrt_getData (''12'', ''-3'') = Inr 141
   \<and> sqrt_solver (''12'', ''-3'') ''12'' \<and> \<not> sqrt_solver (''12'', ''-3'') ''012''"
proof -
  have a: "BigInt (fst (''12'', ''-3'')) = Inr 12"
    by code_simp
  have b: "BigInt (snd (''12'', ''-3'')) = Inr (- 3)"
    by code_simp
  from sqrt_contract [of "(''12'', ''-3'')" 0 0 "''12''" "''12''" "''0''" "''1''"] a b
  have "sqrt_getData (''12'', ''-3'') = Inr (12 * 12 + (- 3))" by blast
  moreover have "sqrt_solver (''12'', ''-3'') ''12''" "\<not> sqrt_solver (''12'', ''-3'') ''012''"
    using sqrt_contract [of "(''12'', ''-3'')" 0 0 "''12''"]
      sqrt_contract [of "(''12'', ''-3'')" 0 0 "''012''"] by simp_all
  ultimately show ?thesis using a b by simp
qed

end
